theory Spec2Isabelle
  imports Main "HOL-Library.Code_Target_Nat"
begin

section \<open>JavaScript strings\<close>

text \<open>
  A JavaScript string is a sequence of UTF-16 code units, and a regular expression
  without the \<^verbatim>\<open>u\<close> flag works on code units. A code unit is a natural number here;
  \<open>asc\<close> turns an ASCII literal into code units.
\<close>

type_synonym jschar = nat
type_synonym jsstring = "jschar list"

definition asc :: "string \<Rightarrow> jsstring" where
  "asc s = map of_char s"

text \<open>The class \<^verbatim>\<open>\s\<close> (white space and line terminators), also what \<^verbatim>\<open>trim()\<close> strips.\<close>

definition isSpace :: "jschar \<Rightarrow> bool" where
  "isSpace c = (c = 9 \<or> c = 10 \<or> c = 11 \<or> c = 12 \<or> c = 13 \<or> c = 32 \<or> c = 160 \<or> c = 5760
     \<or> (8192 \<le> c \<and> c \<le> 8202) \<or> c = 8232 \<or> c = 8233 \<or> c = 8239 \<or> c = 8287
     \<or> c = 12288 \<or> c = 65279)"

text \<open>The line terminators, which \<^verbatim>\<open>.\<close> does not match.\<close>

definition isLineTerminator :: "jschar \<Rightarrow> bool" where
  "isLineTerminator c = (c = 10 \<or> c = 13 \<or> c = 8232 \<or> c = 8233)"

definition isDigit :: "jschar \<Rightarrow> bool" where
  "isDigit c = (48 \<le> c \<and> c \<le> 57)"

text \<open>The class \<^verbatim>\<open>[a-zA-Z0-9_-]\<close> of the hashtag pattern.\<close>

definition isTagChar :: "jschar \<Rightarrow> bool" where
  "isTagChar c = ((97 \<le> c \<and> c \<le> 122) \<or> (65 \<le> c \<and> c \<le> 90) \<or> (48 \<le> c \<and> c \<le> 57)
     \<or> c = 95 \<or> c = 45)"

definition trim :: "jsstring \<Rightarrow> jsstring" where
  "trim s = rev (dropWhile isSpace (rev (dropWhile isSpace s)))"

definition asciiUpper :: "jschar \<Rightarrow> jschar" where
  "asciiUpper c = (if 97 \<le> c \<and> c \<le> 122 then c - 32 else c)"

definition asciiLower :: "jschar \<Rightarrow> jschar" where
  "asciiLower c = (if 65 \<le> c \<and> c \<le> 90 then c + 32 else c)"

text \<open>
  The case tables of Unicode belong to the JavaScript runtime, not to the repository:
  they are a parameter. \<open>upper1 c\<close> is the single code unit of \<^verbatim>\<open>c.toUpperCase()\<close>
  (or \<open>c\<close> when the result is longer), \<open>lowerStr s\<close> is \<^verbatim>\<open>s.toLowerCase()\<close> for a
  string with a code unit outside ASCII. On ASCII both functions of the runtime are fixed
  and written out.
\<close>

record unicode =
  upper1 :: "jschar \<Rightarrow> jschar"
  lowerStr :: "jsstring \<Rightarrow> jsstring"

text \<open>
  Canonicalize of an ignore-case pattern without the \<^verbatim>\<open>u\<close> flag (ECMAScript
  22.2.5.6): the upper-case code unit, except that a code unit from 128 on never maps
  below 128.
\<close>

definition canonicalize :: "unicode \<Rightarrow> jschar \<Rightarrow> jschar" where
  "canonicalize U c =
     (if c < 128 then asciiUpper c
      else (let cu = upper1 U c in if cu < 128 then c else cu))"

definition toLowerCase :: "unicode \<Rightarrow> jsstring \<Rightarrow> jsstring" where
  "toLowerCase U s = (if list_all (\<lambda>c. c < 128) s then map asciiLower s else lowerStr U s)"

text \<open>\<^verbatim>\<open>split('\n')\<close> and \<^verbatim>\<open>join('\n')\<close>.\<close>

fun splitOn :: "jschar \<Rightarrow> jsstring \<Rightarrow> jsstring list" where
  "splitOn d [] = [[]]"
| "splitOn d (c # cs) =
     (if c = d then [] # splitOn d cs
      else (case splitOn d cs of [] \<Rightarrow> [[c]] | l # ls \<Rightarrow> (c # l) # ls))"

fun joinWith :: "jsstring \<Rightarrow> jsstring list \<Rightarrow> jsstring" where
  "joinWith d [] = []"
| "joinWith d [l] = l"
| "joinWith d (l # ls) = l @ d @ joinWith d ls"

text \<open>Decimal rendering of a number in a template literal.\<close>

function decimal :: "nat \<Rightarrow> jsstring" where
  "decimal n = (if n < 10 then [48 + n] else decimal (n div 10) @ [48 + n mod 10])"
  by pat_completeness auto
termination
  by (relation "measure id") auto

declare decimal.simps [simp del]

section \<open>Regular expressions of the task parser\<close>

text \<open>
  Every pattern of \<^verbatim>\<open>PATTERNS\<close> is a sequence of single character classes and of
  greedy repetitions of a class. \<open>One p\<close> is one code unit of class \<open>p\<close>, \<open>Many p\<close> is
  \<^verbatim>\<open>p*\<close>; \<^verbatim>\<open>p+\<close> is \<open>One p\<close> followed by \<open>Many p\<close>. In each pattern the class of a
  repetition is disjoint from the class that follows it, so the backtracking matcher of
  JavaScript can only succeed with the longest repetition, which is what \<open>m_items\<close>
  takes. \<open>m_items\<close> matches at the start of the string and returns what is left.
\<close>

datatype item = One "jschar \<Rightarrow> bool" | Many "jschar \<Rightarrow> bool"

fun m_items :: "item list \<Rightarrow> jsstring \<Rightarrow> jsstring option" where
  "m_items [] s = Some s"
| "m_items (One p # is) [] = None"
| "m_items (One p # is) (c # cs) = (if p c then m_items is cs else None)"
| "m_items (Many p # is) s = m_items is (dropWhile p s)"

definition lits :: "jsstring \<Rightarrow> item list" where
  "lits s = map (\<lambda>c. One (\<lambda>d. d = c)) s"

text \<open>A literal under the \<^verbatim>\<open>i\<close> flag: code units are compared after Canonicalize.\<close>

definition lits_ci :: "unicode \<Rightarrow> jsstring \<Rightarrow> item list" where
  "lits_ci U s = map (\<lambda>c. One (\<lambda>d. canonicalize U d = canonicalize U c)) s"

text \<open>
  A pattern with one capture group: the items before the group, of the group and after
  it. The result is the captured text and the text after the match.
\<close>

definition m_group :: "item list \<Rightarrow> item list \<Rightarrow> item list \<Rightarrow> jsstring \<Rightarrow> (jsstring \<times> jsstring) option" where
  "m_group pre grp post s =
     (case m_items pre s of None \<Rightarrow> None
      | Some s1 \<Rightarrow>
         (case m_items grp s1 of None \<Rightarrow> None
          | Some s2 \<Rightarrow>
             (case m_items post s2 of None \<Rightarrow> None
              | Some r \<Rightarrow> Some (take (length s1 - length s2) s1, r))))"

text \<open>
  The first match of an unanchored pattern: the leftmost position where the pattern
  matches. The result is the text before the match, the capture and the text after.
\<close>

fun search :: "(jsstring \<Rightarrow> ('a \<times> jsstring) option) \<Rightarrow> jsstring \<Rightarrow> (jsstring \<times> 'a \<times> jsstring) option" where
  "search m [] = (case m [] of None \<Rightarrow> None | Some (c, r) \<Rightarrow> Some ([], c, r))"
| "search m (x # xs) =
     (case m (x # xs) of
        Some (c, r) \<Rightarrow> Some ([], c, r)
      | None \<Rightarrow> (case search m xs of None \<Rightarrow> None | Some (pre, c, r) \<Rightarrow> Some (x # pre, c, r)))"

text \<open>\<^verbatim>\<open>re.test(s)\<close>, \<^verbatim>\<open>s.match(re)[1]\<close> and \<^verbatim>\<open>s.replace(re, rep)\<close> for a pattern without the
  \<^verbatim>\<open>g\<close> flag (the first match only; no replacement text of the source holds a \<^verbatim>\<open>$\<close>).\<close>

definition rx_test :: "(jsstring \<Rightarrow> ('a \<times> jsstring) option) \<Rightarrow> jsstring \<Rightarrow> bool" where
  "rx_test m s = (search m s \<noteq> None)"

definition rx_match1 :: "(jsstring \<Rightarrow> ('a \<times> jsstring) option) \<Rightarrow> jsstring \<Rightarrow> 'a option" where
  "rx_match1 m s = (case search m s of None \<Rightarrow> None | Some (pre, c, r) \<Rightarrow> Some c)"

definition rx_replace :: "(jsstring \<Rightarrow> ('a \<times> jsstring) option) \<Rightarrow> jsstring \<Rightarrow> jsstring \<Rightarrow> jsstring" where
  "rx_replace m rep s = (case search m s of None \<Rightarrow> s | Some (pre, c, r) \<Rightarrow> pre @ rep @ r)"

text \<open>A pattern without a group, as a matcher with an empty capture.\<close>

definition m_plain :: "item list \<Rightarrow> jsstring \<Rightarrow> (unit \<times> jsstring) option" where
  "m_plain is s = (case m_items is s of None \<Rightarrow> None | Some r \<Rightarrow> Some ((), r))"

subsection \<open>The patterns\<close>

text \<open>
  The glyphs of the Tasks plugin, as the code units that the string and pattern literals
  of \<^verbatim>\<open>task-parser.ts\<close> hold. The file stores each glyph as the Mac Roman reading of the
  emoji's UTF-8 bytes: the due-date glyph is U+F8FF U+00FC U+00EC U+00D6 in the file.
  Nothing below depends on more than these sequences.
\<close>

definition dueDateGlyph :: jsstring where "dueDateGlyph = [63743, 252, 236, 214]"
definition scheduledDateGlyph :: jsstring where "scheduledDateGlyph = [8218, 232, 8805]"
definition startDateGlyph :: jsstring where "startDateGlyph = [63743, 252, 245, 180]"
definition doneDateGlyph :: jsstring where "doneDateGlyph = [8218, 250, 214]"
definition highPriorityGlyph :: jsstring where "highPriorityGlyph = [8218, 232, 180]"
definition mediumPriorityGlyph :: jsstring where "mediumPriorityGlyph = [63743, 252, 238, 186]"
definition lowPriorityGlyph :: jsstring where "lowPriorityGlyph = [63743, 252, 238, 937]"

text \<open>\<^verbatim>\<open>\d{4}-\d{2}-\d{2}\<close>\<close>

definition dateItems :: "item list" where
  "dateItems = replicate 4 (One isDigit) @ lits (asc ''-'') @ replicate 2 (One isDigit)
     @ lits (asc ''-'') @ replicate 2 (One isDigit)"

text \<open>\<^verbatim>\<open>/<!--\s*todoist-id:\s*(\d+)\s*-->/\<close>\<close>

definition p_todoistId :: "jsstring \<Rightarrow> (jsstring \<times> jsstring) option" where
  "p_todoistId = m_group
     (lits (asc ''<!--'') @ [Many isSpace] @ lits (asc ''todoist-id:'') @ [Many isSpace])
     [One isDigit, Many isDigit]
     ([Many isSpace] @ lits (asc ''-->''))"

text \<open>A date glyph, \<^verbatim>\<open>\s*\<close> and the date in a group: \<^verbatim>\<open>dueDate\<close>, \<^verbatim>\<open>scheduledDate\<close>,
  \<^verbatim>\<open>startDate\<close> and \<^verbatim>\<open>doneDate\<close>.\<close>

definition p_glyphDate :: "jsstring \<Rightarrow> jsstring \<Rightarrow> (jsstring \<times> jsstring) option" where
  "p_glyphDate g = m_group (lits g @ [Many isSpace]) dateItems []"

definition p_dueDate :: "jsstring \<Rightarrow> (jsstring \<times> jsstring) option" where
  "p_dueDate = p_glyphDate dueDateGlyph"

definition p_scheduledDate :: "jsstring \<Rightarrow> (jsstring \<times> jsstring) option" where
  "p_scheduledDate = p_glyphDate scheduledDateGlyph"

definition p_startDate :: "jsstring \<Rightarrow> (jsstring \<times> jsstring) option" where
  "p_startDate = p_glyphDate startDateGlyph"

definition p_doneDate :: "jsstring \<Rightarrow> (jsstring \<times> jsstring) option" where
  "p_doneDate = p_glyphDate doneDateGlyph"

text \<open>\<^verbatim>\<open>/due:(\d{4}-\d{2}-\d{2})/i\<close>\<close>

definition p_textDueDate :: "unicode \<Rightarrow> jsstring \<Rightarrow> (jsstring \<times> jsstring) option" where
  "p_textDueDate U = m_group (lits_ci U (asc ''due:'')) dateItems []"

definition p_highPriority :: "jsstring \<Rightarrow> (unit \<times> jsstring) option" where
  "p_highPriority = m_plain (lits highPriorityGlyph)"

definition p_mediumPriority :: "jsstring \<Rightarrow> (unit \<times> jsstring) option" where
  "p_mediumPriority = m_plain (lits mediumPriorityGlyph)"

definition p_lowPriority :: "jsstring \<Rightarrow> (unit \<times> jsstring) option" where
  "p_lowPriority = m_plain (lits lowPriorityGlyph)"

text \<open>
  \<^verbatim>\<open>new RegExp(escapeRegex(syncTag), 'i')\<close>: \<^verbatim>\<open>escapeRegex\<close> puts a backslash before
  each of \<^verbatim>\<open>. * + ? ^ $ { } ( ) | [ ] \\<close>, the characters with a meaning in a pattern, so the
  pattern is the tag as a literal, compared without case.
\<close>

definition p_syncTag :: "unicode \<Rightarrow> jsstring \<Rightarrow> jsstring \<Rightarrow> (unit \<times> jsstring) option" where
  "p_syncTag U syncTag = m_plain (lits_ci U syncTag)"

text \<open>\<^verbatim>\<open>/\[\s\]/\<close> and \<^verbatim>\<open>/\[[xX]\]/\<close> of \<^verbatim>\<open>updateTaskCompletion\<close>.\<close>

definition p_openBox :: "jsstring \<Rightarrow> (unit \<times> jsstring) option" where
  "p_openBox = m_plain [One (\<lambda>c. c = 91), One isSpace, One (\<lambda>c. c = 93)]"

definition p_doneBox :: "jsstring \<Rightarrow> (unit \<times> jsstring) option" where
  "p_doneBox = m_plain [One (\<lambda>c. c = 91), One (\<lambda>c. c = 120 \<or> c = 88), One (\<lambda>c. c = 93)]"

text \<open>
  \<^verbatim>\<open>/^(\s*)[-*]\s+\[([ xX])\]\s+(.*)$/\<close>, anchored at both ends. The groups are the
  indentation, the checkbox glyph and the text of the task. The last \<^verbatim>\<open>\s+\<close> is
  followed by \<^verbatim>\<open>(.*)$\<close>: when the text after the longest white space holds a line
  terminator, no shorter white space helps, since the terminator stays in the rest.
\<close>

definition matchTask :: "jsstring \<Rightarrow> (jsstring \<times> jschar \<times> jsstring) option" where
  "matchTask line =
     (case m_items [Many isSpace, One (\<lambda>c. c = 45 \<or> c = 42), One isSpace, Many isSpace,
                    One (\<lambda>c. c = 91)] line of
        None \<Rightarrow> None
      | Some [] \<Rightarrow> None
      | Some (box # s1) \<Rightarrow>
          if box = 32 \<or> box = 120 \<or> box = 88 then
            (case m_items [One (\<lambda>c. c = 93), One isSpace, Many isSpace] s1 of
               None \<Rightarrow> None
             | Some taskContent \<Rightarrow>
                 if list_all (\<lambda>c. \<not> isLineTerminator c) taskContent
                 then Some (takeWhile isSpace line, box, taskContent)
                 else None)
          else None)"

section \<open>The task-line codec (\<^verbatim>\<open>task-parser.ts\<close>)\<close>

datatype TodoistPriority = NONE | LOW | MEDIUM | HIGH

text \<open>The numeric value of the enum, for template literals.\<close>

fun priorityNumber :: "TodoistPriority \<Rightarrow> nat" where
  "priorityNumber NONE = 1"
| "priorityNumber LOW = 2"
| "priorityNumber MEDIUM = 3"
| "priorityNumber HIGH = 4"

record ParsedObsidianTask =
  originalLine :: jsstring
  lineNumber :: nat
  filePath :: jsstring
  content :: jsstring
  isCompleted :: bool
  todoistId :: "jsstring option"
  dueDate :: "jsstring option"
  priority :: TodoistPriority
  labels :: "jsstring list"
  description :: jsstring
  lastModified :: nat

text \<open>A value of type \<^verbatim>\<open>string | null\<close> in a condition: null and the empty string are falsy.\<close>

fun truthy :: "jsstring option \<Rightarrow> bool" where
  "truthy None = False"
| "truthy (Some s) = (s \<noteq> [])"

definition extractDueDate :: "unicode \<Rightarrow> jsstring \<Rightarrow> jsstring option" where
  "extractDueDate U c =
     (case rx_match1 p_dueDate c of
        Some d \<Rightarrow> Some d
      | None \<Rightarrow>
         (case rx_match1 p_scheduledDate c of
            Some d \<Rightarrow> Some d
          | None \<Rightarrow>
             (case rx_match1 (p_textDueDate U) c of
                Some d \<Rightarrow> Some d
              | None \<Rightarrow> None)))"

definition extractPriority :: "jsstring \<Rightarrow> TodoistPriority" where
  "extractPriority c =
     (if rx_test p_highPriority c then HIGH
      else if rx_test p_mediumPriority c then MEDIUM
      else if rx_test p_lowPriority c then LOW
      else NONE)"

text \<open>
  The \<^verbatim>\<open>exec\<close> loop over \<^verbatim>\<open>/#([a-zA-Z0-9_-]+)/g\<close>: the names of the hashtags from left
  to right, each the longest run of tag characters after a \<^verbatim>\<open>#\<close>; the search goes on
  after the run.
\<close>

function hashtags :: "jsstring \<Rightarrow> jsstring list" where
  "hashtags [] = []"
| "hashtags (c # cs) =
     (if c = 35 \<and> takeWhile isTagChar cs \<noteq> []
      then takeWhile isTagChar cs # hashtags (dropWhile isTagChar cs)
      else hashtags cs)"
  by pat_completeness auto
termination
  by (relation "measure length") (auto simp: length_dropWhile_le less_Suc_eq_le)

text \<open>\<^verbatim>\<open>syncTag.replace(/^#/, '')\<close>\<close>

fun dropHash :: "jsstring \<Rightarrow> jsstring" where
  "dropHash [] = []"
| "dropHash (c # cs) = (if c = 35 then cs else c # cs)"

definition extractLabels :: "unicode \<Rightarrow> jsstring \<Rightarrow> jsstring \<Rightarrow> jsstring list" where
  "extractLabels U c syncTag =
     (let syncTagName = toLowerCase U (dropHash syncTag)
      in filter (\<lambda>tag. tag \<noteq> syncTagName) (map (toLowerCase U) (hashtags c)))"

text \<open>
  \<^verbatim>\<open>cleaned.replace(syncTagPattern, '')\<close> with the flags \<^verbatim>\<open>gi\<close>: every match of the tag from
  left to right, without overlap, is dropped. The empty tag matches the empty string
  everywhere and the text stays as it is.
\<close>

function removeAll_ci :: "unicode \<Rightarrow> jsstring \<Rightarrow> jsstring \<Rightarrow> jsstring" where
  "removeAll_ci U t [] = []"
| "removeAll_ci U t (c # cs) =
     (if t \<noteq> [] \<and> m_items (lits_ci U t) (c # cs) \<noteq> None
      then removeAll_ci U t (drop (length t - 1) cs)
      else c # removeAll_ci U t cs)"
  by pat_completeness auto
termination
  by (relation "measure (\<lambda>(U, t, s). length s)") auto

text \<open>\<^verbatim>\<open>cleaned.replace(/\s+/g, ' ')\<close>\<close>

function collapseSpaces :: "jsstring \<Rightarrow> jsstring" where
  "collapseSpaces [] = []"
| "collapseSpaces (c # cs) =
     (if isSpace c then 32 # collapseSpaces (dropWhile isSpace cs)
      else c # collapseSpaces cs)"
  by pat_completeness auto
termination
  by (relation "measure length") (auto simp: length_dropWhile_le less_Suc_eq_le)

definition cleanTaskContent :: "unicode \<Rightarrow> jsstring \<Rightarrow> jsstring \<Rightarrow> jsstring" where
  "cleanTaskContent U c syncTag =
     (let cleaned = rx_replace p_todoistId [] c;
          cleaned = removeAll_ci U syncTag cleaned;
          cleaned = rx_replace p_dueDate [] cleaned;
          cleaned = rx_replace p_scheduledDate [] cleaned;
          cleaned = rx_replace p_startDate [] cleaned;
          cleaned = rx_replace p_doneDate [] cleaned;
          cleaned = rx_replace p_highPriority [] cleaned;
          cleaned = rx_replace p_mediumPriority [] cleaned;
          cleaned = rx_replace p_lowPriority [] cleaned;
          cleaned = rx_replace (p_textDueDate U) [] cleaned
      in trim (collapseSpaces cleaned))"

definition parseTaskLine :: "unicode \<Rightarrow> jsstring \<Rightarrow> nat \<Rightarrow> jsstring \<Rightarrow> jsstring \<Rightarrow> nat \<Rightarrow> ParsedObsidianTask option" where
  "parseTaskLine U line lineNo path syncTag modified =
     (case matchTask line of
        None \<Rightarrow> None
      | Some (indent, checkbox, taskContent) \<Rightarrow>
          if \<not> rx_test (p_syncTag U syncTag) taskContent then None
          else Some \<lparr>
            originalLine = line,
            lineNumber = lineNo,
            filePath = path,
            content = cleanTaskContent U taskContent syncTag,
            isCompleted = (asciiLower checkbox = 120),
            todoistId = rx_match1 p_todoistId taskContent,
            dueDate = extractDueDate U taskContent,
            priority = extractPriority taskContent,
            labels = extractLabels U taskContent syncTag,
            description = [],
            lastModified = modified \<rparr>)"

definition buildTaskLine :: "ParsedObsidianTask \<Rightarrow> jsstring \<Rightarrow> jsstring" where
  "buildTaskLine task syncTag =
     (let checkbox = (if isCompleted task then asc ''[x]'' else asc ''[ ]'');
          line = asc ''- '' @ checkbox @ asc '' '' @ content task;
          line = line @ asc '' '' @ syncTag;
          line = line @ concat (map (\<lambda>label. asc '' #'' @ label) (labels task));
          line = (if priority task = HIGH then line @ asc '' '' @ highPriorityGlyph
                  else if priority task = MEDIUM then line @ asc '' '' @ mediumPriorityGlyph
                  else if priority task = LOW then line @ asc '' '' @ lowPriorityGlyph
                  else line);
          line = (case dueDate task of
                    Some d \<Rightarrow> if d \<noteq> [] then line @ asc '' '' @ dueDateGlyph @ asc '' '' @ d else line
                  | None \<Rightarrow> line);
          line = (case todoistId task of
                    Some i \<Rightarrow> if i \<noteq> [] then line @ asc '' <!-- todoist-id:'' @ i @ asc '' -->'' else line
                  | None \<Rightarrow> line)
      in line)"

definition addTodoistIdToLine :: "jsstring \<Rightarrow> jsstring \<Rightarrow> jsstring" where
  "addTodoistIdToLine line newId =
     trim (rx_replace p_todoistId [] line) @ asc '' <!-- todoist-id:'' @ newId @ asc '' -->''"

definition updateTaskCompletion :: "jsstring \<Rightarrow> bool \<Rightarrow> jsstring" where
  "updateTaskCompletion line completed =
     (if completed then rx_replace p_openBox (asc ''[x]'') line
      else rx_replace p_doneBox (asc ''[ ]'') line)"

text \<open>
  \<^verbatim>\<open>extractDescription\<close>: the lines after a task that are indented more than the task, up
  to the first line that is not blank and not indented more, or that is a task itself.
  The first argument is the indentation of the task line, the second the lines after it.
\<close>

definition indentOf :: "jsstring \<Rightarrow> nat" where
  "indentOf line = length (takeWhile isSpace line)"

fun descriptionLines :: "nat \<Rightarrow> jsstring list \<Rightarrow> jsstring list" where
  "descriptionLines taskIndent [] = []"
| "descriptionLines taskIndent (line # rest) =
     (if trim line \<noteq> [] \<and> indentOf line \<le> taskIndent then []
      else if matchTask line \<noteq> None then []
      else if trim line \<noteq> [] then trim line # descriptionLines taskIndent rest
      else descriptionLines taskIndent rest)"

definition extractDescription :: "jsstring list \<Rightarrow> nat \<Rightarrow> jsstring" where
  "extractDescription lines taskIndex =
     joinWith [10] (descriptionLines (indentOf (lines ! taskIndex)) (drop (Suc taskIndex) lines))"

text \<open>The loop of \<^verbatim>\<open>parseTasksFromContent\<close> from line \<open>i\<close> on.\<close>

function parseTasksFrom :: "unicode \<Rightarrow> jsstring list \<Rightarrow> nat \<Rightarrow> jsstring \<Rightarrow> jsstring \<Rightarrow> nat \<Rightarrow> ParsedObsidianTask list" where
  "parseTasksFrom U lines i path syncTag modified =
     (if i < length lines then
        (case parseTaskLine U (lines ! i) i path syncTag modified of
           Some task \<Rightarrow>
             task\<lparr>description := extractDescription lines i\<rparr>
               # parseTasksFrom U lines (Suc i) path syncTag modified
         | None \<Rightarrow> parseTasksFrom U lines (Suc i) path syncTag modified)
      else [])"
  by pat_completeness auto
termination
  by (relation "measure (\<lambda>(U, lines, i, path, syncTag, modified). length lines - i)") auto

declare parseTasksFrom.simps [simp del]

definition parseTasksFromContent :: "unicode \<Rightarrow> jsstring \<Rightarrow> jsstring \<Rightarrow> jsstring \<Rightarrow> nat \<Rightarrow> ParsedObsidianTask list" where
  "parseTasksFromContent U text path syncTag modified =
     parseTasksFrom U (splitOn 10 text) 0 path syncTag modified"

text \<open>
  \<^verbatim>\<open>generateContentHash\<close>: \<^verbatim>\<open>hash = ((hash << 5) - hash) + char; hash = hash & hash\<close>
  keeps the hash a signed 32-bit integer; \<^verbatim>\<open>toString(16)\<close> writes it in hexadecimal with
  a minus sign when it is negative.
\<close>

definition toInt32 :: "int \<Rightarrow> int" where
  "toInt32 x = (x + 2147483648) mod 4294967296 - 2147483648"

definition hexDigit :: "nat \<Rightarrow> jschar" where
  "hexDigit d = (if d < 10 then 48 + d else 87 + d)"

function hexNat :: "nat \<Rightarrow> jsstring" where
  "hexNat n = (if n < 16 then [hexDigit n] else hexNat (n div 16) @ [hexDigit (n mod 16)])"
  by pat_completeness auto
termination
  by (relation "measure id") auto

declare hexNat.simps [simp del]

definition hexInt :: "int \<Rightarrow> jsstring" where
  "hexInt x = (if x < 0 then asc ''-'' @ hexNat (nat (- x)) else hexNat (nat x))"

definition hashStep :: "int \<Rightarrow> jschar \<Rightarrow> int" where
  "hashStep hash char = toInt32 ((toInt32 (hash * 32) - hash) + int char)"

definition generateContentHash :: "ParsedObsidianTask \<Rightarrow> jsstring" where
  "generateContentHash task =
     (let dat = content task @ asc ''|''
            @ (if isCompleted task then asc ''true'' else asc ''false'') @ asc ''|''
            @ (case dueDate task of None \<Rightarrow> [] | Some d \<Rightarrow> d) @ asc ''|''
            @ decimal (priorityNumber (priority task)) @ asc ''|''
            @ joinWith (asc '','') (labels task)
      in hexInt (foldl hashStep 0 dat))"

section \<open>The remote service and the vault\<close>

text \<open>
  An error is kept as the text that \<^verbatim>\<open>${error}\<close> gives for it; a call that may throw
  returns \<open>Inl\<close> of that text or \<open>Inr\<close> of its value.

  The Todoist client library is not part of the repository. Its state is a type
  parameter \<open>'g\<close> and its calls are the fields of \<open>api\<close>: each takes the remote state and
  returns the outcome and the new remote state. \<open>fetchAllTasks\<close> is the outcome of the
  paging loop of \<^verbatim>\<open>TodoistService.getTasks\<close> (the error it rethrows, or the tasks of all
  pages). \<open>Task\<close> holds the fields of the library's task that the engine reads;
  \<open>task_due\<close> is \<^verbatim>\<open>due.date\<close>, or \<open>None\<close> for a task with no \<^verbatim>\<open>due\<close>.
\<close>

record Task =
  task_id :: jsstring
  task_content :: jsstring
  task_isCompleted :: bool
  task_priority :: TodoistPriority
  task_due :: "jsstring option"

record TaskOptions =
  o_projectId :: "jsstring option"
  o_priority :: "TodoistPriority option"
  o_dueDate :: "jsstring option"
  o_labels :: "jsstring list option"
  o_description :: "jsstring option"

record AddTaskArgs =
  a_content :: jsstring
  a_projectId :: "jsstring option"
  a_priority :: TodoistPriority
  a_dueString :: "jsstring option"
  a_labels :: "jsstring list option"
  a_description :: "jsstring option"

record UpdateTaskArgs =
  u_content :: jsstring
  u_priority :: TodoistPriority
  u_dueString :: "jsstring option"
  u_labels :: "jsstring list"

record 'g api =
  fetchAllTasks :: "'g \<Rightarrow> (jsstring + Task list) \<times> 'g"
  addTask :: "AddTaskArgs \<Rightarrow> 'g \<Rightarrow> (jsstring + Task) \<times> 'g"
  updateTask :: "jsstring \<Rightarrow> UpdateTaskArgs \<Rightarrow> 'g \<Rightarrow> (jsstring + Task) \<times> 'g"
  closeTask :: "jsstring \<Rightarrow> 'g \<Rightarrow> (jsstring + bool) \<times> 'g"
  reopenTask :: "jsstring \<Rightarrow> 'g \<Rightarrow> (jsstring + bool) \<times> 'g"

text \<open>
  The world outside the engine. \<open>files p\<close> is the text of the file at path \<open>p\<close>
  (\<open>None\<close>: \<^verbatim>\<open>getAbstractFileByPath\<close> gives no file); \<open>markdownFiles\<close> is what
  \<^verbatim>\<open>getMarkdownFiles()\<close> gives, the paths with their \<^verbatim>\<open>stat.mtime\<close>, or the error it
  throws; \<open>readError\<close> and \<open>modifyError\<close> say for which paths \<^verbatim>\<open>vault.read\<close> and
  \<^verbatim>\<open>vault.modify\<close> throw, and what. \<open>apiReady\<close> is \<^verbatim>\<open>api !== null\<close> of the service.
  \<^verbatim>\<open>Date.now()\<close> reads \<open>clock\<close> at \<open>ticks\<close> and moves \<open>ticks\<close> on, so successive
  calls may give any values.
\<close>

record 'g world =
  files :: "jsstring \<Rightarrow> jsstring option"
  markdownFiles :: "jsstring + (jsstring \<times> nat) list"
  readError :: "jsstring \<Rightarrow> jsstring option"
  modifyError :: "jsstring \<Rightarrow> jsstring option"
  remote :: 'g
  apiReady :: bool
  clock :: "nat \<Rightarrow> nat"
  ticks :: nat

definition dateNow :: "'g world \<Rightarrow> nat \<times> 'g world" where
  "dateNow w = (clock w (ticks w), w\<lparr>ticks := Suc (ticks w)\<rparr>)"

definition vault_read :: "jsstring \<Rightarrow> 'g world \<Rightarrow> jsstring + jsstring" where
  "vault_read p w =
     (case readError w p of
        Some err \<Rightarrow> Inl err
      | None \<Rightarrow> (case files w p of None \<Rightarrow> Inl (asc ''Error: ENOENT'') | Some text \<Rightarrow> Inr text))"

definition vault_modify :: "jsstring \<Rightarrow> jsstring \<Rightarrow> 'g world \<Rightarrow> (jsstring + unit) \<times> 'g world" where
  "vault_modify p text w =
     (case modifyError w p of
        Some err \<Rightarrow> (Inl err, w)
      | None \<Rightarrow> (Inr (), w\<lparr>files := (files w)(p \<mapsto> text)\<rparr>))"

subsection \<open>\<^verbatim>\<open>TodoistService\<close>\<close>

text \<open>\<^verbatim>\<open>x || undefined\<close> for a string.\<close>

definition orUndefined :: "jsstring option \<Rightarrow> jsstring option" where
  "orUndefined x = (if truthy x then x else None)"

definition notInitialized :: jsstring where
  "notInitialized = asc ''Error: Todoist API not initialized''"

definition callApi :: "('g \<Rightarrow> (jsstring + 'a) \<times> 'g) \<Rightarrow> 'g world \<Rightarrow> (jsstring + 'a) \<times> 'g world" where
  "callApi f w =
     (if \<not> apiReady w then (Inl notInitialized, w)
      else (case f (remote w) of (r, g) \<Rightarrow> (r, w\<lparr>remote := g\<rparr>)))"

definition getTasks :: "'g api \<Rightarrow> 'g world \<Rightarrow> (jsstring + Task list) \<times> 'g world" where
  "getTasks G w = callApi (fetchAllTasks G) w"

definition createTask :: "'g api \<Rightarrow> jsstring \<Rightarrow> TaskOptions \<Rightarrow> 'g world \<Rightarrow> (jsstring + Task) \<times> 'g world" where
  "createTask G text options w =
     callApi (addTask G \<lparr>
        a_content = text,
        a_projectId = orUndefined (o_projectId options),
        a_priority = (case o_priority options of Some p \<Rightarrow> p | None \<Rightarrow> NONE),
        a_dueString = orUndefined (o_dueDate options),
        a_labels = o_labels options,
        a_description = orUndefined (o_description options) \<rparr>) w"

definition completeTask :: "'g api \<Rightarrow> jsstring \<Rightarrow> 'g world \<Rightarrow> (jsstring + bool) \<times> 'g world" where
  "completeTask G taskId w = callApi (closeTask G taskId) w"

definition reopenTaskSvc :: "'g api \<Rightarrow> jsstring \<Rightarrow> 'g world \<Rightarrow> (jsstring + bool) \<times> 'g world" where
  "reopenTaskSvc G taskId w = callApi (reopenTask G taskId) w"

definition updateTaskSvc :: "'g api \<Rightarrow> jsstring \<Rightarrow> UpdateTaskArgs \<Rightarrow> 'g world \<Rightarrow> (jsstring + Task) \<times> 'g world" where
  "updateTaskSvc G taskId updates w = callApi (updateTask G taskId updates) w"

definition parseDueDate :: "Task \<Rightarrow> jsstring option" where
  "parseDueDate task = task_due task"

section \<open>The sync engine (\<^verbatim>\<open>sync-engine.ts\<close>)\<close>

datatype ConflictResolution = ObsidianWins | TodoistWins | AskUser

record TodoistSyncSettings =
  apiToken :: jsstring
  syncTag :: jsstring
  defaultProjectId :: jsstring
  syncIntervalMinutes :: nat
  conflictResolution :: ConflictResolution

record SyncedTask =
  s_todoistId :: jsstring
  s_filePath :: jsstring
  s_lineNumber :: nat
  contentHash :: jsstring
  lastSynced :: nat
  obsidianCompleted :: bool
  todoistCompleted :: bool

record SyncState =
  tasks :: "jsstring \<Rightarrow> SyncedTask option"
  lastFullSync :: nat

record SyncResult =
  created :: nat
  updated :: nat
  completed :: nat
  conflicts :: nat
  errors :: "jsstring list"

record SyncConflict =
  c_todoistId :: jsstring
  c_filePath :: jsstring
  c_lineNumber :: nat
  obsidianContent :: jsstring
  todoistContent :: jsstring
  c_obsidianCompleted :: bool
  c_todoistCompleted :: bool

record SyncEngine =
  settings :: TodoistSyncSettings
  syncState :: SyncState
  isSyncing :: bool
  pendingConflicts :: "SyncConflict list"

datatype SyncOutcome = Updated | Conflict | Completed | Unchanged

text \<open>\<^verbatim>\<open>Map.set\<close>: a key already present keeps its place and takes the new value.\<close>

fun mapSet :: "'k \<Rightarrow> 'v \<Rightarrow> ('k \<times> 'v) list \<Rightarrow> ('k \<times> 'v) list" where
  "mapSet k v [] = [(k, v)]"
| "mapSet k v ((k', v') # m) = (if k' = k then (k, v) # m else (k', v') # mapSet k v m)"

definition getAllObsidianTasks :: "unicode \<Rightarrow> SyncEngine \<Rightarrow> 'g world \<Rightarrow> jsstring + ParsedObsidianTask list" where
  "getAllObsidianTasks U e w =
     (case markdownFiles w of
        Inl err \<Rightarrow> Inl err
      | Inr fs \<Rightarrow>
          Inr (concat (map (\<lambda>(p, modified).
                 case vault_read p w of
                   Inl err \<Rightarrow> []
                 | Inr text \<Rightarrow> parseTasksFromContent U text p (syncTag (settings e)) modified) fs)))"

definition updateObsidianTaskLine :: "ParsedObsidianTask \<Rightarrow> (jsstring \<Rightarrow> jsstring) \<Rightarrow> 'g world \<Rightarrow> (jsstring + unit) \<times> 'g world" where
  "updateObsidianTaskLine task transform w =
     (case files w (filePath task) of
        None \<Rightarrow> (Inl (asc ''Error: File not found: '' @ filePath task), w)
      | Some f \<Rightarrow>
          (case vault_read (filePath task) w of
             Inl err \<Rightarrow> (Inl err, w)
           | Inr text \<Rightarrow>
               (let lines = splitOn 10 text in
                if lineNumber task \<ge> length lines
                then (Inl (asc ''Error: Line number out of range: '' @ decimal (lineNumber task)), w)
                else vault_modify (filePath task)
                       (joinWith [10] (lines[lineNumber task := transform (lines ! lineNumber task)])) w)))"

definition replaceLineInFile :: "jsstring \<Rightarrow> nat \<Rightarrow> jsstring \<Rightarrow> 'g world \<Rightarrow> (jsstring + unit) \<times> 'g world" where
  "replaceLineInFile path lineNo newLine w =
     (case files w path of
        None \<Rightarrow> (Inl (asc ''Error: File not found: '' @ path), w)
      | Some f \<Rightarrow>
          (case vault_read path w of
             Inl err \<Rightarrow> (Inl err, w)
           | Inr text \<Rightarrow>
               (let lines = splitOn 10 text in
                if lineNo \<ge> length lines
                then (Inl (asc ''Error: Line number out of range: '' @ decimal lineNo), w)
                else vault_modify path (joinWith [10] (lines[lineNo := newLine])) w)))"

definition markObsidianTaskCompleted :: "ParsedObsidianTask \<Rightarrow> 'g world \<Rightarrow> (jsstring + unit) \<times> 'g world" where
  "markObsidianTaskCompleted task w = updateObsidianTaskLine task (\<lambda>line. updateTaskCompletion line True) w"

definition updateObsidianTaskFromTodoist :: "SyncEngine \<Rightarrow> ParsedObsidianTask \<Rightarrow> Task \<Rightarrow> 'g world \<Rightarrow> (jsstring + unit) \<times> 'g world" where
  "updateObsidianTaskFromTodoist e obsidianTask todoistTask w =
     (let updatedTask = obsidianTask\<lparr>
            content := task_content todoistTask,
            priority := task_priority todoistTask,
            dueDate := parseDueDate todoistTask,
            isCompleted := task_isCompleted todoistTask \<rparr>;
          newLine = buildTaskLine updatedTask (syncTag (settings e))
      in replaceLineInFile (filePath obsidianTask) (lineNumber obsidianTask) newLine w)"

definition updateSyncStateTask :: "jsstring \<Rightarrow> ParsedObsidianTask \<Rightarrow> bool \<Rightarrow> SyncEngine \<times> 'g world \<Rightarrow> SyncEngine \<times> 'g world" where
  "updateSyncStateTask tid obsidianTask done = (\<lambda>(e, w).
     (case dateNow w of (now, w') \<Rightarrow>
        (e\<lparr>syncState := (syncState e)\<lparr>tasks := (tasks (syncState e))(tid \<mapsto> \<lparr>
             s_todoistId = tid,
             s_filePath = filePath obsidianTask,
             s_lineNumber = lineNumber obsidianTask,
             contentHash = generateContentHash obsidianTask,
             lastSynced = now,
             obsidianCompleted = done,
             todoistCompleted = done \<rparr>)\<rparr>\<rparr>, w')))"

definition createTodoistTask :: "'g api \<Rightarrow> ParsedObsidianTask \<Rightarrow> SyncEngine \<times> 'g world \<Rightarrow> (jsstring + unit) \<times> SyncEngine \<times> 'g world" where
  "createTodoistTask G task = (\<lambda>(e, w).
     (case createTask G (content task) \<lparr>
              o_projectId = orUndefined (Some (defaultProjectId (settings e))),
              o_priority = Some (priority task),
              o_dueDate = dueDate task,
              o_labels = Some (labels task),
              o_description = Some (description task) \<rparr> w of
        (Inl err, w1) \<Rightarrow> (Inl err, e, w1)
      | (Inr todoistTask, w1) \<Rightarrow>
          (case updateObsidianTaskLine task (\<lambda>line. addTodoistIdToLine line (task_id todoistTask)) w1 of
             (Inl err, w2) \<Rightarrow> (Inl err, e, w2)
           | (Inr u, w2) \<Rightarrow>
               (case dateNow w2 of (now, w3) \<Rightarrow>
                  (let e1 = e\<lparr>syncState := (syncState e)\<lparr>tasks := (tasks (syncState e))(task_id todoistTask \<mapsto> \<lparr>
                          s_todoistId = task_id todoistTask,
                          s_filePath = filePath task,
                          s_lineNumber = lineNumber task,
                          contentHash = generateContentHash task,
                          lastSynced = now,
                          obsidianCompleted = isCompleted task,
                          todoistCompleted = task_isCompleted todoistTask \<rparr>)\<rparr>\<rparr>
                   in if isCompleted task then
                        (case completeTask G (task_id todoistTask) w3 of
                           (Inl err, w4) \<Rightarrow> (Inl err, e1, w4)
                         | (Inr ok, w4) \<Rightarrow> (Inr (), e1, w4))
                      else (Inr (), e1, w3))))))"

definition syncExistingTask :: "'g api \<Rightarrow> ParsedObsidianTask \<Rightarrow> Task \<Rightarrow> SyncEngine \<times> 'g world \<Rightarrow> (jsstring + SyncOutcome) \<times> SyncEngine \<times> 'g world" where
  "syncExistingTask G obsidianTask todoistTask = (\<lambda>(e, w).
     (let obsidianDone = isCompleted obsidianTask;
          todoistDone = task_isCompleted todoistTask
      in
      if obsidianDone \<noteq> todoistDone \<and> obsidianDone \<and> \<not> todoistDone then
        (case completeTask G (task_id todoistTask) w of
           (Inl err, w1) \<Rightarrow> (Inl err, e, w1)
         | (Inr ok, w1) \<Rightarrow>
             (case updateSyncStateTask (task_id todoistTask) obsidianTask True (e, w1) of
                (e2, w2) \<Rightarrow> (Inr Completed, e2, w2)))
      else if obsidianDone \<noteq> todoistDone \<and> \<not> obsidianDone \<and> todoistDone then
        (if conflictResolution (settings e) = TodoistWins then
           (case markObsidianTaskCompleted obsidianTask w of
              (Inl err, w1) \<Rightarrow> (Inl err, e, w1)
            | (Inr u, w1) \<Rightarrow>
                (case updateSyncStateTask (task_id todoistTask) obsidianTask True (e, w1) of
                   (e2, w2) \<Rightarrow> (Inr Completed, e2, w2)))
         else if conflictResolution (settings e) = ObsidianWins then
           (case reopenTaskSvc G (task_id todoistTask) w of
              (Inl err, w1) \<Rightarrow> (Inl err, e, w1)
            | (Inr ok, w1) \<Rightarrow>
                (case updateSyncStateTask (task_id todoistTask) obsidianTask False (e, w1) of
                   (e2, w2) \<Rightarrow> (Inr Updated, e2, w2)))
         else
           (case markObsidianTaskCompleted obsidianTask w of
              (Inl err, w1) \<Rightarrow> (Inl err, e, w1)
            | (Inr u, w1) \<Rightarrow>
                (case updateSyncStateTask (task_id todoistTask) obsidianTask True (e, w1) of
                   (e2, w2) \<Rightarrow> (Inr Conflict, e2, w2))))
      else
        (let todoistText = task_content todoistTask;
             todoistPriority = task_priority todoistTask;
             todoistDueDate = parseDueDate todoistTask;
             contentDiffers = (content obsidianTask \<noteq> todoistText);
             priorityDiffers = (priority obsidianTask \<noteq> todoistPriority);
             dueDateDiffers = (dueDate obsidianTask \<noteq> todoistDueDate);
             hasChanges = (contentDiffers \<or> priorityDiffers \<or> dueDateDiffers)
         in
         if \<not> hasChanges then
           (case updateSyncStateTask (task_id todoistTask) obsidianTask obsidianDone (e, w) of
              (e2, w2) \<Rightarrow> (Inr Unchanged, e2, w2))
         else if conflictResolution (settings e) = ObsidianWins then
           (case updateTaskSvc G (task_id todoistTask) \<lparr>
                    u_content = content obsidianTask,
                    u_priority = priority obsidianTask,
                    u_dueString = dueDate obsidianTask,
                    u_labels = labels obsidianTask \<rparr> w of
              (Inl err, w1) \<Rightarrow> (Inl err, e, w1)
            | (Inr t, w1) \<Rightarrow>
                (case updateSyncStateTask (task_id todoistTask) obsidianTask obsidianDone (e, w1) of
                   (e2, w2) \<Rightarrow> (Inr Updated, e2, w2)))
         else if conflictResolution (settings e) = TodoistWins then
           (case updateObsidianTaskFromTodoist e obsidianTask todoistTask w of
              (Inl err, w1) \<Rightarrow> (Inl err, e, w1)
            | (Inr u, w1) \<Rightarrow>
                (case updateSyncStateTask (task_id todoistTask) obsidianTask obsidianDone (e, w1) of
                   (e2, w2) \<Rightarrow> (Inr Updated, e2, w2)))
         else
           (Inr Conflict,
            e\<lparr>pendingConflicts := pendingConflicts e @ [\<lparr>
                 c_todoistId = task_id todoistTask,
                 c_filePath = filePath obsidianTask,
                 c_lineNumber = lineNumber obsidianTask,
                 obsidianContent = content obsidianTask,
                 todoistContent = todoistText,
                 c_obsidianCompleted = obsidianDone,
                 c_todoistCompleted = todoistDone \<rparr>]\<rparr>,
            w))))"

subsection \<open>\<^verbatim>\<open>performSync\<close>\<close>

definition emptyResult :: SyncResult where
  "emptyResult = \<lparr>created = 0, updated = 0, completed = 0, conflicts = 0, errors = []\<rparr>"

text \<open>The grouping loop: tasks with a Todoist id by id, the others in scan order.\<close>

definition syncedObsidianTasks :: "ParsedObsidianTask list \<Rightarrow> (jsstring \<times> ParsedObsidianTask) list" where
  "syncedObsidianTasks obsidianTasks =
     foldl (\<lambda>m task. if truthy (todoistId task) then mapSet (the (todoistId task)) task m else m)
       [] obsidianTasks"

definition newObsidianTasks :: "ParsedObsidianTask list \<Rightarrow> ParsedObsidianTask list" where
  "newObsidianTasks obsidianTasks = filter (\<lambda>task. \<not> truthy (todoistId task)) obsidianTasks"

definition todoistTaskMap :: "Task list \<Rightarrow> (jsstring \<times> Task) list" where
  "todoistTaskMap todoistTasks = foldl (\<lambda>m task. mapSet (task_id task) task m) [] todoistTasks"

text \<open>The body of loop 1 (create Todoist tasks for new Obsidian tasks), for one task.\<close>

definition createStep :: "'g api \<Rightarrow> SyncResult \<times> SyncEngine \<times> 'g world \<Rightarrow> ParsedObsidianTask \<Rightarrow> SyncResult \<times> SyncEngine \<times> 'g world" where
  "createStep G = (\<lambda>(result, e, w) task.
     (case createTodoistTask G task (e, w) of
        (Inr u, e', w') \<Rightarrow> (result\<lparr>created := created result + 1\<rparr>, e', w')
      | (Inl err, e', w') \<Rightarrow>
          (result\<lparr>errors := errors result @
             [asc ''Failed to create task: '' @ content task @ asc '' - '' @ err]\<rparr>, e', w')))"

text \<open>The body of loop 2 (sync existing tasks), for one entry of the map of linked tasks.\<close>

definition deleteTask :: "jsstring \<Rightarrow> SyncEngine \<Rightarrow> SyncEngine" where
  "deleteTask tid e = e\<lparr>syncState := (syncState e)\<lparr>tasks := (tasks (syncState e))(tid := None)\<rparr>\<rparr>"

definition syncStep :: "'g api \<Rightarrow> (jsstring \<times> Task) list \<Rightarrow> SyncResult \<times> SyncEngine \<times> 'g world \<Rightarrow> jsstring \<times> ParsedObsidianTask \<Rightarrow> SyncResult \<times> SyncEngine \<times> 'g world" where
  "syncStep G remoteMap = (\<lambda>(result, e, w) (tid, obsidianTask).
     (case map_of remoteMap tid of
        None \<Rightarrow>
          (case markObsidianTaskCompleted obsidianTask w of
             (Inr u, w') \<Rightarrow> (result\<lparr>completed := completed result + 1\<rparr>, deleteTask tid e, w')
           | (Inl err, w') \<Rightarrow>
               (result\<lparr>errors := errors result @
                  [asc ''Failed to mark task completed: '' @ content obsidianTask]\<rparr>, e, w'))
      | Some todoistTask \<Rightarrow>
          (case syncExistingTask G obsidianTask todoistTask (e, w) of
             (Inr Updated, e', w') \<Rightarrow> (result\<lparr>updated := updated result + 1\<rparr>, e', w')
           | (Inr Conflict, e', w') \<Rightarrow> (result\<lparr>conflicts := conflicts result + 1\<rparr>, e', w')
           | (Inr Completed, e', w') \<Rightarrow> (result\<lparr>completed := completed result + 1\<rparr>, e', w')
           | (Inr Unchanged, e', w') \<Rightarrow> (result, e', w')
           | (Inl err, e', w') \<Rightarrow>
               (result\<lparr>errors := errors result @
                  [asc ''Failed to sync task: '' @ content obsidianTask @ asc '' - '' @ err]\<rparr>, e', w'))))"

text \<open>The body of loop 3, for one id of the map of fetched tasks.\<close>

definition orphanStep :: "(jsstring \<times> ParsedObsidianTask) list \<Rightarrow> SyncEngine \<Rightarrow> jsstring \<Rightarrow> SyncEngine" where
  "orphanStep linked e tid =
     (if tasks (syncState e) tid \<noteq> None \<and> map_of linked tid = None then deleteTask tid e else e)"

text \<open>
  The states of a loop: the state before the first iteration and the state after each
  iteration, in order. The last one is the state that \<open>foldl\<close> gives.
\<close>

fun stepStates :: "('s \<Rightarrow> 'a \<Rightarrow> 's) \<Rightarrow> 's \<Rightarrow> 'a list \<Rightarrow> 's list" where
  "stepStates f s [] = [s]"
| "stepStates f s (x # xs) = s # stepStates f (f s x) xs"

definition engineOf :: "SyncResult \<times> SyncEngine \<times> 'g world \<Rightarrow> SyncEngine" where
  "engineOf st = fst (snd st)"

text \<open>
  \<^verbatim>\<open>performSync\<close>, as the outcome of the invocation (the result it resolves with, the
  engine and the world it leaves) together with the engine states of the invocation in
  flight: the values that the fields of \<^verbatim>\<open>this\<close> have while the invocation is suspended
  at an \<^verbatim>\<open>await\<close>, which is when another invocation can start. The two checks at the top
  run before the first \<^verbatim>\<open>await\<close>, so an invocation that returns there is never in flight.
  After \<^verbatim>\<open>this.isSyncing = true\<close> the invocation is suspended in the fetch and in the scan
  with the engine \<open>e1\<close>, and in each iteration of loop 1 and loop 2, where the engine is
  the one before the iteration or the one after it (\<^verbatim>\<open>createTodoistTask\<close>,
  \<^verbatim>\<open>syncExistingTask\<close> and the branch of a task absent from the remote service assign to
  the fields of the engine at most once per call). Loop 3, the time stamp and \<^verbatim>\<open>finally\<close>
  run without an \<^verbatim>\<open>await\<close>. An exception outside the inner handlers (here:
  \<^verbatim>\<open>getMarkdownFiles\<close> throwing) reaches the outer \<^verbatim>\<open>catch\<close>; \<^verbatim>\<open>finally\<close> clears the flag.
\<close>

definition performSyncRun :: "unicode \<Rightarrow> 'g api \<Rightarrow> SyncEngine \<times> 'g world \<Rightarrow> (SyncResult \<times> SyncEngine \<times> 'g world) \<times> SyncEngine list" where
  "performSyncRun U G = (\<lambda>(e, w).
     if isSyncing e then
       ((emptyResult\<lparr>errors := [asc ''Sync already in progress'']\<rparr>, e, w), [])
     else if \<not> apiReady w then
       ((emptyResult\<lparr>errors := [asc ''Todoist API not configured'']\<rparr>, e, w), [])
     else
       (let e1 = e\<lparr>isSyncing := True\<rparr>;
            result = emptyResult
        in
        (case getTasks G w of
           (Inl err, w1) \<Rightarrow>
             ((result\<lparr>errors := errors result @ [asc ''Failed to fetch Todoist tasks: '' @ err]\<rparr>,
               e1\<lparr>isSyncing := False\<rparr>, w1),
              [e1])
         | (Inr todoistTasks, w1) \<Rightarrow>
             (let remoteMap = todoistTaskMap todoistTasks in
              (case getAllObsidianTasks U e1 w1 of
                 Inl err \<Rightarrow>
                   ((result\<lparr>errors := errors result @ [asc ''Sync failed: '' @ err]\<rparr>,
                     e1\<lparr>isSyncing := False\<rparr>, w1),
                    [e1])
               | Inr obsidianTasks \<Rightarrow>
                   (let linked = syncedObsidianTasks obsidianTasks;
                        unlinked = newObsidianTasks obsidianTasks
                    in
                    (case foldl (createStep G) (result, e1, w1) unlinked of
                       (result2, e2, w2) \<Rightarrow>
                         (case foldl (syncStep G remoteMap) (result2, e2, w2) linked of
                            (result3, e3, w3) \<Rightarrow>
                              (let e4 = foldl (orphanStep linked) e3 (map fst remoteMap) in
                               (case dateNow w3 of
                                  (now, w4) \<Rightarrow>
                                    ((result3,
                                      e4\<lparr>syncState := (syncState e4)\<lparr>lastFullSync := now\<rparr>,
                                         isSyncing := False\<rparr>,
                                      w4),
                                     e1 # map engineOf
                                       (stepStates (createStep G) (result, e1, w1) unlinked
                                        @ stepStates (syncStep G remoteMap) (result2, e2, w2) linked))))))))))))"

text \<open>What the invocation resolves with and leaves, and its engine states in flight.\<close>

definition performSync :: "unicode \<Rightarrow> 'g api \<Rightarrow> SyncEngine \<times> 'g world \<Rightarrow> SyncResult \<times> SyncEngine \<times> 'g world" where
  "performSync U G st = fst (performSyncRun U G st)"

definition inFlight :: "unicode \<Rightarrow> 'g api \<Rightarrow> SyncEngine \<times> 'g world \<Rightarrow> SyncEngine list" where
  "inFlight U G st = snd (performSyncRun U G st)"

section \<open>Concrete inputs\<close>

text \<open>
  Inputs for the closed theorems below: a runtime without case mappings beyond ASCII, a
  remote service that answers the fetch and the create call with fixed outcomes, accepts
  close and reopen, refuses update, and counts the calls it gets; a vault, an engine.
\<close>

definition U0 :: unicode where
  "U0 = \<lparr>upper1 = (\<lambda>c. c), lowerStr = (\<lambda>s. s)\<rparr>"

definition stubApi :: "(jsstring + Task list) \<Rightarrow> (jsstring + Task) \<Rightarrow> nat api" where
  "stubApi fetched added = \<lparr>
     fetchAllTasks = (\<lambda>g. (fetched, Suc g)),
     addTask = (\<lambda>args g. (added, Suc g)),
     updateTask = (\<lambda>taskId updates g. (Inl (asc ''Error: 404''), Suc g)),
     closeTask = (\<lambda>taskId g. (Inr True, Suc g)),
     reopenTask = (\<lambda>taskId g. (Inr True, Suc g)) \<rparr>"

definition world0 :: "nat world" where
  "world0 = \<lparr>
     files = (\<lambda>p. None),
     markdownFiles = Inr [],
     readError = (\<lambda>p. None),
     modifyError = (\<lambda>p. None),
     remote = 0,
     apiReady = True,
     clock = (\<lambda>n. 1000 + n),
     ticks = 0 \<rparr>"

definition engine0 :: SyncEngine where
  "engine0 = \<lparr>
     settings = \<lparr>apiToken = asc ''token'', syncTag = asc ''#todoist'', defaultProjectId = [],
                 syncIntervalMinutes = 5, conflictResolution = TodoistWins\<rparr>,
     syncState = \<lparr>tasks = (\<lambda>k. None), lastFullSync = 0\<rparr>,
     isSyncing = False,
     pendingConflicts = [] \<rparr>"

definition path1 :: jsstring where
  "path1 = asc ''f.md''"

definition lineNew :: jsstring where
  "lineNew = asc ''- [ ] a #todoist''"

definition line7 :: jsstring where
  "line7 = asc ''- [ ] a #todoist <!-- todoist-id:7 -->''"

text \<open>The task that the scan makes of \<open>line7\<close> as line 0 of \<open>path1\<close>.\<close>

definition localTask7 :: ParsedObsidianTask where
  "localTask7 = \<lparr>originalLine = line7, lineNumber = 0, filePath = path1, content = asc ''a'',
     isCompleted = False, todoistId = Some (asc ''7''), dueDate = None, priority = NONE,
     labels = [], description = [], lastModified = 1\<rparr>"

definition localTaskNew :: ParsedObsidianTask where
  "localTaskNew = \<lparr>originalLine = lineNew, lineNumber = 0, filePath = path1, content = asc ''a'',
     isCompleted = False, todoistId = None, dueDate = None, priority = NONE,
     labels = [], description = [], lastModified = 1\<rparr>"

text \<open>A vault with the one file \<open>path1\<close>, and the same vault when no file can be written.\<close>

definition worldWith :: "jsstring \<Rightarrow> nat world" where
  "worldWith body = world0\<lparr>files := (\<lambda>p. if p = path1 then Some body else None),
      markdownFiles := Inr [(path1, 1)]\<rparr>"

definition readOnly :: "nat world \<Rightarrow> nat world" where
  "readOnly w = w\<lparr>modifyError := (\<lambda>p. Some (asc ''Error: EROFS''))\<rparr>"

definition record7 :: SyncedTask where
  "record7 = \<lparr>s_todoistId = asc ''7'', s_filePath = path1, s_lineNumber = 0, contentHash = [],
     lastSynced = 0, obsidianCompleted = False, todoistCompleted = False\<rparr>"

definition engine7 :: SyncEngine where
  "engine7 = engine0\<lparr>syncState :=
     \<lparr>tasks = (\<lambda>k. if k = asc ''7'' then Some record7 else None), lastFullSync = 0\<rparr>\<rparr>"

definition engineAsk :: SyncEngine where
  "engineAsk = engine7\<lparr>settings := (settings engine7)\<lparr>conflictResolution := AskUser\<rparr>\<rparr>"

definition task7 :: Task where
  "task7 = \<lparr>task_id = asc ''7'', task_content = asc ''b'', task_isCompleted = False,
     task_priority = NONE, task_due = None\<rparr>"

definition task5 :: Task where
  "task5 = \<lparr>task_id = asc ''5'', task_content = asc ''a'', task_isCompleted = False,
     task_priority = NONE, task_due = None\<rparr>"

section \<open>Well-formed tasks and the parts of a built line\<close>

text \<open>
  What the round trip of the codec asks of a task. The sync marker is a hashtag,
  \<^verbatim>\<open>#\<close> and a name (the settings tab puts the \<^verbatim>\<open>#\<close> in front of a marker without one). The
  content is free of metadata tokens: cleaning leaves its white space as it is, none of
  the patterns that the parser removes or reads occurs in it, and it holds no hashtag.
  A label is a hashtag name in lower case other than the marker's name; a due date has
  the form YYYY-MM-DD; an id is a non-empty run of digits.
\<close>

definition validMarker :: "jsstring \<Rightarrow> bool" where
  "validMarker t = (case t of [] \<Rightarrow> False | c # name \<Rightarrow> c = 35 \<and> name \<noteq> [] \<and> list_all isTagChar name)"

definition plainContent :: "unicode \<Rightarrow> jsstring \<Rightarrow> jsstring \<Rightarrow> bool" where
  "plainContent U marker c =
     (trim (collapseSpaces c) = c
      \<and> search p_todoistId c = None
      \<and> search (p_syncTag U marker) c = None
      \<and> search p_dueDate c = None
      \<and> search p_scheduledDate c = None
      \<and> search p_startDate c = None
      \<and> search p_doneDate c = None
      \<and> search p_highPriority c = None
      \<and> search p_mediumPriority c = None
      \<and> search p_lowPriority c = None
      \<and> search (p_textDueDate U) c = None
      \<and> hashtags c = [])"

definition validLabel :: "jsstring \<Rightarrow> jsstring \<Rightarrow> bool" where
  "validLabel marker l =
     (l \<noteq> [] \<and> list_all isTagChar l \<and> map asciiLower l = l \<and> l \<noteq> map asciiLower (dropHash marker))"

definition validDate :: "jsstring \<Rightarrow> bool" where
  "validDate d = (m_items dateItems d = Some [])"

definition validId :: "jsstring \<Rightarrow> bool" where
  "validId i = (i \<noteq> [] \<and> list_all isDigit i)"

definition wellFormed :: "unicode \<Rightarrow> jsstring \<Rightarrow> ParsedObsidianTask \<Rightarrow> bool" where
  "wellFormed U marker task =
     (plainContent U marker (content task)
      \<and> list_all (validLabel marker) (labels task)
      \<and> (case dueDate task of None \<Rightarrow> True | Some d \<Rightarrow> validDate d)
      \<and> (case todoistId task of None \<Rightarrow> True | Some i \<Rightarrow> validId i))"

text \<open>The text that \<^verbatim>\<open>buildTaskLine\<close> appends for the labels, the priority, the due date and
  the id, and the content with the blank after it (the task pattern drops the blank
  after the checkbox, and with an empty content the blank before the marker too).\<close>

definition labelPart :: "jsstring list \<Rightarrow> jsstring" where
  "labelPart ls = concat (map (\<lambda>l. 32 # 35 # l) ls)"

fun prioPart :: "TodoistPriority \<Rightarrow> jsstring" where
  "prioPart HIGH = 32 # highPriorityGlyph"
| "prioPart MEDIUM = 32 # mediumPriorityGlyph"
| "prioPart LOW = 32 # lowPriorityGlyph"
| "prioPart NONE = []"

definition duePart :: "jsstring option \<Rightarrow> jsstring" where
  "duePart d = (case d of None \<Rightarrow> [] | Some x \<Rightarrow> if x \<noteq> [] then 32 # dueDateGlyph @ 32 # x else [])"

definition idPart :: "jsstring option \<Rightarrow> jsstring" where
  "idPart i = (case i of None \<Rightarrow> []
     | Some x \<Rightarrow> if x \<noteq> [] then asc '' <!-- todoist-id:'' @ x @ asc '' -->'' else [])"

definition lead :: "jsstring \<Rightarrow> jsstring" where
  "lead c = (if c = [] then [] else c @ [32])"

text \<open>
  \<open>extSafe is v\<close>: wherever a text ends inside the pattern \<open>is\<close>, the rest of the pattern
  does not match at the start of \<open>v\<close>. \<open>safeTail w\<close>: after its leading white space \<open>w\<close>
  does not go on with a digit, a \<^verbatim>\<open>t\<close> or a \<^verbatim>\<open>-\<close>.
\<close>

fun extSafe :: "item list \<Rightarrow> jsstring \<Rightarrow> bool" where
  "extSafe [] v = True"
| "extSafe (it # is) v = ((m_items (it # is) [] \<noteq> None \<or> m_items (it # is) v = None) \<and> extSafe is v)"

definition safeTail :: "jsstring \<Rightarrow> bool" where
  "safeTail w = (case dropWhile isSpace w of [] \<Rightarrow> True
     | c # r \<Rightarrow> \<not> isDigit c \<and> c \<noteq> 116 \<and> c \<noteq> 45)"

text \<open>The first match of a pattern, moved behind a prefix that was skipped.\<close>

definition shift :: "jsstring \<Rightarrow> (jsstring \<times> 'a \<times> jsstring) option \<Rightarrow> (jsstring \<times> 'a \<times> jsstring) option" where
  "shift u res = (case res of None \<Rightarrow> None | Some (pre, c, r) \<Rightarrow> Some (u @ pre, c, r))"

text \<open>\<^verbatim>\<open>trim\<close> at the right end only.\<close>

definition rtrim :: "jsstring \<Rightarrow> jsstring" where
  "rtrim s = rev (dropWhile isSpace (rev s))"

text \<open>Text made of blanks, \<^verbatim>\<open>#\<close> and tag characters: the marker and the labels.\<close>

definition tagArea :: "jsstring \<Rightarrow> bool" where
  "tagArea u = list_all (\<lambda>c. c = 32 \<or> c = 35 \<or> isTagChar c) u"

definition okDue :: "jsstring option \<Rightarrow> bool" where
  "okDue d = (case d of None \<Rightarrow> True | Some x \<Rightarrow> validDate x)"

definition okId :: "jsstring option \<Rightarrow> bool" where
  "okId i = (case i of None \<Rightarrow> True | Some x \<Rightarrow> validId x)"

text \<open>\<open>skips m x\<close>: no match of \<open>m\<close> starts inside \<open>x\<close>, whatever follows.\<close>

definition skips :: "(jsstring \<Rightarrow> ('a \<times> jsstring) option) \<Rightarrow> jsstring \<Rightarrow> bool" where
  "skips m x = (\<forall>v. search m (x @ v) = shift x (search m v))"

definition blanks :: "jsstring \<Rightarrow> bool" where
  "blanks b = list_all (\<lambda>c. c = 32) b"

definition blankIf :: "bool \<Rightarrow> jsstring" where
  "blankIf b = (if b then [32] else [])"

text \<open>The shape of a line that the task pattern matches.\<close>

definition taskShape :: "jsstring \<Rightarrow> jschar \<Rightarrow> jsstring \<Rightarrow> jschar \<Rightarrow> jsstring \<Rightarrow> jsstring \<Rightarrow> bool" where
  "taskShape ind b w1 box w2 rest \<longleftrightarrow>
     list_all isSpace ind \<and> (b = 45 \<or> b = 42) \<and> w1 \<noteq> [] \<and> list_all isSpace w1
     \<and> (box = 32 \<or> box = 120 \<or> box = 88) \<and> w2 \<noteq> [] \<and> list_all isSpace w2
     \<and> (rest = [] \<or> \<not> isSpace (hd rest)) \<and> list_all (\<lambda>c. \<not> isLineTerminator c) rest"

text \<open>A marker, a task with every field set and no label, the same task with a label in
  upper case, and the names that the hashtag grammar \<^verbatim>\<open>[a-zA-Z0-9_-]+\<close> admits.\<close>

definition marker0 :: jsstring where
  "marker0 = asc ''#todoist''"

definition milkTask :: ParsedObsidianTask where
  "milkTask = \<lparr>originalLine = [], lineNumber = 0, filePath = path1, content = asc ''Buy milk'',
     isCompleted = True, todoistId = Some (asc ''12''), dueDate = Some (asc ''2025-01-01''),
     priority = MEDIUM, labels = [], description = [], lastModified = 1\<rparr>"

definition workTask :: ParsedObsidianTask where
  "workTask = milkTask\<lparr>labels := [asc ''Work'']\<rparr>"

definition hashtagName :: "jsstring \<Rightarrow> bool" where
  "hashtagName l = (l \<noteq> [] \<and> list_all isTagChar l)"

section \<open>Lemmas on matching and searching\<close>

lemma m_items_suffix: "m_items is s = Some r \<Longrightarrow> \<exists>p. s = p @ r"
proof (induction "is" s rule: m_items.induct)
  case (1 s)
  then show ?case by simp
next
  case (2 p "is")
  then show ?case by simp
next
  case (3 p "is" c cs)
  then obtain q where "cs = q @ r" by (auto split: if_splits)
  then have "c # cs = (c # q) @ r" by simp
  then show ?case by blast
next
  case (4 p "is" s)
  then obtain q where "dropWhile p s = q @ r" by auto
  then have "s = (takeWhile p s @ q) @ r"
    by (metis append.assoc takeWhile_dropWhile_id)
  then show ?case by blast
qed

lemma m_items_append:
  "m_items (a @ b) s = (case m_items a s of None \<Rightarrow> None | Some s1 \<Rightarrow> m_items b s1)"
  by (induction a s rule: m_items.induct) auto

lemma search_hit: "m s = Some (c, r) \<Longrightarrow> search m s = Some ([], c, r)"
  by (cases s) auto

lemma search_Cons_miss:
  "m (x # xs) = None \<Longrightarrow>
   search m (x # xs) = (case search m xs of None \<Rightarrow> None | Some (pre, c, r) \<Rightarrow> Some (x # pre, c, r))"
  by simp

text \<open>Skipping a prefix in which no match starts.\<close>

lemma search_skip:
  assumes "\<And>u1 u2. u = u1 @ u2 \<Longrightarrow> u2 \<noteq> [] \<Longrightarrow> m (u2 @ v) = None"
  shows "search m (u @ v) =
           (case search m v of None \<Rightarrow> None | Some (pre, c, r) \<Rightarrow> Some (u @ pre, c, r))"
  using assms
proof (induction u)
  case Nil
  then show ?case by (simp split: option.splits)
next
  case (Cons x u)
  have miss: "m ((x # u) @ v) = None"
    using Cons.prems [of "[]" "x # u"] by simp
  have "\<And>u1 u2. u = u1 @ u2 \<Longrightarrow> u2 \<noteq> [] \<Longrightarrow> m (u2 @ v) = None"
  proof -
    fix u1 u2 assume "u = u1 @ u2" "u2 \<noteq> []"
    then show "m (u2 @ v) = None" using Cons.prems [of "x # u1" u2] by simp
  qed
  then have IH: "search m (u @ v) =
      (case search m v of None \<Rightarrow> None | Some (pre, c, r) \<Rightarrow> Some (u @ pre, c, r))"
    by (rule Cons.IH)
  show ?case using miss IH by (simp split: option.splits)
qed

lemma search_sound:
  "search m s = Some (pre, c, r) \<Longrightarrow> \<exists>t. s = pre @ t \<and> m t = Some (c, r)"
proof (induction s arbitrary: pre)
  case Nil
  then show ?case by (auto split: option.splits)
next
  case (Cons x xs)
  show ?case
  proof (cases "m (x # xs)")
    case (Some a)
    then show ?thesis using Cons.prems by (cases a) auto
  next
    case None
    then obtain pre' where s: "search m xs = Some (pre', c, r)" and p: "pre = x # pre'"
      using Cons.prems by (auto split: option.splits)
    from Cons.IH [OF s] obtain t where "xs = pre' @ t" "m t = Some (c, r)" by blast
    then show ?thesis using p by auto
  qed
qed

text \<open>A pattern whose first item is a class that no code unit of \<open>u\<close> has.\<close>

lemma m_plain_first: "\<not> p c \<Longrightarrow> m_plain (One p # is) (c # s) = None"
  by (simp add: m_plain_def)

lemma m_group_first: "\<not> p c \<Longrightarrow> m_group (One p # pre) grp post (c # s) = None"
  by (simp add: m_group_def)

lemma search_skip_first:
  assumes "\<And>c s. \<not> p c \<Longrightarrow> m (c # s) = None" and "list_all (\<lambda>c. \<not> p c) u"
  shows "search m (u @ v) =
           (case search m v of None \<Rightarrow> None | Some (pre, c, r) \<Rightarrow> Some (u @ pre, c, r))"
proof (rule search_skip)
  fix u1 u2 assume u: "u = u1 @ u2" and ne: "u2 \<noteq> []"
  then obtain c s where u2: "u2 = c # s" by (cases u2) auto
  then have "\<not> p c" using assms(2) u by (simp add: list_all_iff)
  then show "m (u2 @ v) = None" using assms(1) u2 by simp
qed

section \<open>Lemmas on task lines and on the lines of a file\<close>

lemma dropWhile_all: "list_all P xs \<Longrightarrow> dropWhile P (xs @ ys) = dropWhile P ys"
  by (induction xs) auto

lemma takeWhile_all: "list_all P xs \<Longrightarrow> takeWhile P (xs @ ys) = xs @ takeWhile P ys"
  by (induction xs) auto

lemma takeWhile_stop: "list_all P xs \<Longrightarrow> \<not> P y \<Longrightarrow> takeWhile P (xs @ y # ys) = xs"
  by (induction xs) auto

lemma dropWhile_stop: "list_all P xs \<Longrightarrow> \<not> P y \<Longrightarrow> dropWhile P (xs @ y # ys) = y # ys"
  by (induction xs) auto

lemma list_all_takeWhile: "list_all P (takeWhile P xs)"
  by (induction xs) auto

lemma dropWhile_hd: "dropWhile P xs = y # ys \<Longrightarrow> \<not> P y"
  using hd_dropWhile [of P xs] by auto

lemma dropWhile_start: "dropWhile P xs = [] \<or> \<not> P (hd (dropWhile P xs))"
  using hd_dropWhile [of P xs] by auto

lemma not_space_simps [simp]:
  "\<not> isSpace 45" "\<not> isSpace 42" "\<not> isSpace 91" "\<not> isSpace 93" "\<not> isSpace 120" "\<not> isSpace 88" "isSpace 32"
  by (simp_all add: isSpace_def)

lemma matchTask_shape:
  assumes "taskShape ind b w1 box w2 rest"
  shows "matchTask (ind @ b # w1 @ 91 # box # 93 # w2 @ rest) = Some (ind, box, rest)"
proof -
  from assms have ind: "list_all isSpace ind" and b: "b = 45 \<or> b = 42"
    and w1: "w1 \<noteq> []" "list_all isSpace w1" and box: "box = 32 \<or> box = 120 \<or> box = 88"
    and w2: "w2 \<noteq> []" "list_all isSpace w2" and rest: "rest = [] \<or> \<not> isSpace (hd rest)"
    and lt: "list_all (\<lambda>c. \<not> isLineTerminator c) rest"
    by (auto simp: taskShape_def)
  have nb: "\<not> isSpace b" using b by auto
  obtain c1 w1' where w1c: "w1 = c1 # w1'" using w1 by (cases w1) auto
  obtain c2 w2' where w2c: "w2 = c2 # w2'" using w2 by (cases w2) auto
  have dr: "dropWhile isSpace rest = rest" using rest by (cases rest) auto
  have sp: "isSpace c1" "list_all isSpace w1'" "isSpace c2" "list_all isSpace w2'"
    using w1 w2 w1c w2c by auto
  have d1: "dropWhile isSpace (ind @ b # c1 # w1' @ 91 # box # 93 # c2 # w2' @ rest)
              = b # c1 # w1' @ 91 # box # 93 # c2 # w2' @ rest"
    using ind nb by (simp add: dropWhile_stop)
  have t1: "takeWhile isSpace (ind @ b # c1 # w1' @ 91 # box # 93 # c2 # w2' @ rest) = ind"
    using ind nb by (simp add: takeWhile_stop)
  have d2: "dropWhile isSpace (w1' @ 91 # box # 93 # c2 # w2' @ rest) = 91 # box # 93 # c2 # w2' @ rest"
    using sp by (simp add: dropWhile_stop)
  have d3: "dropWhile isSpace (w2' @ rest) = rest"
    using sp dr by (simp add: dropWhile_all)
  have "matchTask (ind @ b # c1 # w1' @ 91 # box # 93 # c2 # w2' @ rest) = Some (ind, box, rest)"
    unfolding matchTask_def t1
    using b box lt sp by (simp add: d1 d2 d3)
  then show ?thesis by (simp add: w1c w2c)
qed

lemma matchTask_decomp:
  assumes "matchTask l = Some (ind, box, rest)"
  shows "\<exists>b w1 w2. l = ind @ b # w1 @ 91 # box # 93 # w2 @ rest \<and> taskShape ind b w1 box w2 rest"
proof -
  let ?s0 = "dropWhile isSpace l"
  from assms obtain b s1 where s0: "?s0 = b # s1" and b: "b = 45 \<or> b = 42"
    by (cases ?s0) (auto simp: matchTask_def split: if_splits option.splits list.splits)
  from assms s0 b obtain c1 s1' where s1: "s1 = c1 # s1'" and c1: "isSpace c1"
    by (cases s1) (auto simp: matchTask_def split: if_splits option.splits list.splits)
  let ?s2 = "dropWhile isSpace s1'"
  from assms s0 b s1 c1 obtain s3 where s2: "?s2 = 91 # box # s3" and box: "box = 32 \<or> box = 120 \<or> box = 88"
    by (cases ?s2) (auto simp: matchTask_def split: if_splits option.splits list.splits)
  from assms s0 b s1 c1 s2 box obtain c2 s4 where s3: "s3 = 93 # c2 # s4" and c2: "isSpace c2"
    and rest: "rest = dropWhile isSpace s4" and lt: "list_all (\<lambda>c. \<not> isLineTerminator c) rest"
    and ind: "ind = takeWhile isSpace l"
    by (cases s3; cases "tl s3") (auto simp: matchTask_def split: if_splits option.splits list.splits)
  have l1: "l = ind @ b # s1" using s0 ind by (metis takeWhile_dropWhile_id)
  have l2: "s1' = takeWhile isSpace s1' @ 91 # box # s3" using s2 by (metis takeWhile_dropWhile_id)
  have l3: "s4 = takeWhile isSpace s4 @ rest" using rest by simp
  let ?w1 = "c1 # takeWhile isSpace s1'"
  let ?w2 = "c2 # takeWhile isSpace s4"
  have "l = ind @ b # ?w1 @ 91 # box # 93 # ?w2 @ rest"
    using l1 s1 l2 s3 l3 by (metis append_Cons)
  moreover have "taskShape ind b ?w1 box ?w2 rest"
    using b c1 c2 box lt ind rest dropWhile_start [of isSpace s4]
    by (simp add: taskShape_def list_all_takeWhile)
  ultimately show ?thesis by blast
qed

lemma asc_box [simp]: "asc ''[x]'' = [91, 120, 93]" "asc ''[ ]'' = [91, 32, 93]"
  by (simp_all add: asc_def)

lemma p_openBox_first: "\<not> c = 91 \<Longrightarrow> p_openBox (c # s) = None"
  by (simp add: p_openBox_def m_plain_def)

lemma p_openBox_Some: "p_openBox t = Some (u, r) \<Longrightarrow> \<exists>s. t = 91 # s # 93 # r \<and> isSpace s"
  by (cases t; cases "tl t"; cases "tl (tl t)")
     (auto simp: p_openBox_def m_plain_def split: if_splits)

lemma space_not_bracket: "isSpace c \<Longrightarrow> c \<noteq> 91"
  by (auto simp: isSpace_def)

lemma spaces_not_bracket: "list_all isSpace w \<Longrightarrow> list_all (\<lambda>c. \<not> c = 91) w"
  by (induction w) (auto simp: space_not_bracket)

lemma updateTaskCompletion_shape:
  assumes sh: "taskShape ind b w1 box w2 rest"
  shows "\<exists>rest'. updateTaskCompletion (ind @ b # w1 @ 91 # box # 93 # w2 @ rest) True
                    = ind @ b # w1 @ 91 # (if box = 32 then 120 else box) # 93 # w2 @ rest'
               \<and> taskShape ind b w1 (if box = 32 then 120 else box) w2 rest'"
proof -
  let ?ua = "ind @ b # w1"
  let ?v = "91 # box # 93 # w2 @ rest"
  have ua: "list_all (\<lambda>c. \<not> c = 91) ?ua"
    using sh by (auto simp: taskShape_def spaces_not_bracket)
  have skip_a: "search p_openBox (?ua @ ?v) =
      (case search p_openBox ?v of None \<Rightarrow> None | Some (pre, c, r) \<Rightarrow> Some (?ua @ pre, c, r))"
  proof (rule search_skip_first [where p = "\<lambda>c. c = 91"])
    show "\<And>c s. \<not> c = 91 \<Longrightarrow> p_openBox (c # s) = None" by (rule p_openBox_first)
    show "list_all (\<lambda>c. \<not> c = 91) ?ua" by (rule ua)
  qed
  have l_eq: "ind @ b # w1 @ 91 # box # 93 # w2 @ rest = ?ua @ ?v" by simp
  show ?thesis
  proof (cases "box = 32")
    case True
    have "p_openBox ?v = Some ((), w2 @ rest)"
      using True by (simp add: p_openBox_def m_plain_def)
    then have "search p_openBox ?v = Some ([], (), w2 @ rest)" by (rule search_hit)
    then have "updateTaskCompletion (?ua @ ?v) True = ?ua @ [91, 120, 93] @ w2 @ rest"
      unfolding updateTaskCompletion_def rx_replace_def skip_a by simp
    moreover have "taskShape ind b w1 120 w2 rest"
      using sh by (simp add: taskShape_def)
    ultimately show ?thesis using True by (intro exI [of _ rest]) simp
  next
    case False
    then have box: "box = 120 \<or> box = 88" using sh by (auto simp: taskShape_def)
    have miss: "p_openBox ?v = None"
      using box by (auto simp add: p_openBox_def m_plain_def)
    have ub: "list_all (\<lambda>c. \<not> c = 91) (box # 93 # w2)"
      using sh box by (auto simp: taskShape_def spaces_not_bracket)
    have skip_b: "search p_openBox ((box # 93 # w2) @ rest) =
      (case search p_openBox rest of None \<Rightarrow> None
       | Some (pre, c, r) \<Rightarrow> Some ((box # 93 # w2) @ pre, c, r))"
    proof (rule search_skip_first [where p = "\<lambda>c. c = 91"])
      show "\<And>c s. \<not> c = 91 \<Longrightarrow> p_openBox (c # s) = None" by (rule p_openBox_first)
      show "list_all (\<lambda>c. \<not> c = 91) (box # 93 # w2)" by (rule ub)
    qed
    have sv: "search p_openBox ?v =
      (case search p_openBox rest of None \<Rightarrow> None
       | Some (pre, c, r) \<Rightarrow> Some (91 # box # 93 # w2 @ pre, c, r))"
      using miss skip_b by (simp split: option.splits)
    show ?thesis
    proof (cases "search p_openBox rest")
      case None
      then have "updateTaskCompletion (?ua @ ?v) True = ?ua @ ?v"
        unfolding updateTaskCompletion_def rx_replace_def skip_a sv by simp
      then show ?thesis using False sh by (intro exI [of _ rest]) simp
    next
      case (Some a)
      obtain pre u r where a: "a = (pre, u, r)" by (cases a)
      from search_sound [of p_openBox rest pre u r] Some a
      obtain t where rest: "rest = pre @ t" and t: "p_openBox t = Some (u, r)" by auto
      from p_openBox_Some [OF t] obtain s where ts: "t = 91 # s # 93 # r" and s: "isSpace s" by blast
      let ?rest' = "pre @ 91 # 120 # 93 # r"
      have upd: "updateTaskCompletion (?ua @ ?v) True = ?ua @ 91 # box # 93 # w2 @ ?rest'"
        unfolding updateTaskCompletion_def rx_replace_def skip_a sv using Some a by simp
      have hd: "?rest' = [] \<or> \<not> isSpace (hd ?rest')"
        using sh rest by (cases pre) (auto simp: taskShape_def)
      have lt: "list_all (\<lambda>c. \<not> isLineTerminator c) ?rest'"
        using sh rest ts by (auto simp: taskShape_def isLineTerminator_def)
      have "taskShape ind b w1 box w2 ?rest'"
        using sh hd lt by (simp add: taskShape_def)
      then show ?thesis using upd False by (intro exI [of _ ?rest']) simp
    qed
  qed
qed

lemma updateTaskCompletion_checkbox:
  assumes "matchTask l = Some (ind, box, rest)"
  shows "\<exists>rest'. matchTask (updateTaskCompletion l True)
           = Some (ind, (if box = 32 then 120 else box), rest')"
proof -
  from matchTask_decomp [OF assms] obtain b w1 w2
    where l: "l = ind @ b # w1 @ 91 # box # 93 # w2 @ rest" and sh: "taskShape ind b w1 box w2 rest"
    by blast
  from updateTaskCompletion_shape [OF sh] obtain rest'
    where u: "updateTaskCompletion (ind @ b # w1 @ 91 # box # 93 # w2 @ rest) True
                    = ind @ b # w1 @ 91 # (if box = 32 then 120 else box) # 93 # w2 @ rest'"
      and sh': "taskShape ind b w1 (if box = 32 then 120 else box) w2 rest'"
    by blast
  show ?thesis using matchTask_shape [OF sh'] u l by auto
qed

subsection \<open>Lines of a file\<close>

lemma splitOn_nonempty [simp]: "splitOn d s \<noteq> []"
  by (induction s) (auto split: list.splits)

lemma splitOn_no_sep: "l \<in> set (splitOn d s) \<Longrightarrow> d \<notin> set l"
proof (induction s arbitrary: l)
  case Nil
  then show ?case by simp
next
  case (Cons c s)
  show ?case
  proof (cases "c = d")
    case True
    then show ?thesis using Cons by auto
  next
    case False
    obtain x xs where sp: "splitOn d s = x # xs" by (cases "splitOn d s") auto
    then have "l = c # x \<or> l \<in> set xs" using Cons.prems False by auto
    then show ?thesis using Cons.IH sp False by auto
  qed
qed

lemma splitOn_append_sep:
  "d \<notin> set l \<Longrightarrow> splitOn d (l @ d # s) = l # splitOn d s"
  by (induction l) auto

lemma splitOn_single: "d \<notin> set l \<Longrightarrow> splitOn d l = [l]"
  by (induction l) auto

lemma splitOn_joinWith:
  "ls \<noteq> [] \<Longrightarrow> (\<And>l. l \<in> set ls \<Longrightarrow> d \<notin> set l) \<Longrightarrow> splitOn d (joinWith [d] ls) = ls"
proof (induction ls)
  case Nil
  then show ?case by simp
next
  case (Cons l ls)
  show ?case
  proof (cases ls)
    case Nil
    then show ?thesis using Cons.prems by (simp add: splitOn_single)
  next
    case (Cons l2 ls2)
    have "splitOn d (joinWith [d] ls) = ls"
      using Cons Cons.IH Cons.prems by simp
    then show ?thesis using Cons Cons.prems by (simp add: splitOn_append_sep)
  qed
qed

lemma updateTaskCompletion_no_newline:
  assumes "10 \<notin> set l"
  shows "10 \<notin> set (updateTaskCompletion l True)"
proof (cases "search p_openBox l")
  case None
  then show ?thesis using assms by (simp add: updateTaskCompletion_def rx_replace_def)
next
  case (Some a)
  obtain pre u r where a: "a = (pre, u, r)" by (cases a)
  from search_sound [of p_openBox l pre u r] Some a
  obtain t where l: "l = pre @ t" and t: "p_openBox t = Some (u, r)" by auto
  from p_openBox_Some [OF t] obtain s where "t = 91 # s # 93 # r" by blast
  then show ?thesis using assms l Some a
    by (auto simp add: updateTaskCompletion_def rx_replace_def)
qed

lemma asciiLower_box: "box = 32 \<or> box = 120 \<or> box = 88 \<Longrightarrow> asciiLower (if box = 32 then 120 else box) = 120"
  by (auto simp: asciiLower_def)

lemma matchTask_box: "matchTask l = Some (ind, box, rest) \<Longrightarrow> box = 32 \<or> box = 120 \<or> box = 88"
  using matchTask_decomp [of l ind box rest] by (auto simp: taskShape_def)

section \<open>Lemmas on the task-line codec\<close>

subsection \<open>White space\<close>

lemma trim_rtrim: "trim s = rtrim (dropWhile isSpace s)"
  by (simp add: trim_def rtrim_def)

lemma rtrim_Cons: "rtrim (c # s) = (if rtrim s = [] \<and> isSpace c then [] else c # rtrim s)"
  by (simp add: rtrim_def dropWhile_append)

lemma rtrim_Nil [simp]: "rtrim [] = []"
  by (simp add: rtrim_def)

lemma dropWhile_all_nil: "list_all P xs \<Longrightarrow> dropWhile P xs = []"
  by (induction xs) auto

lemma collapse_spaces_only: "list_all isSpace w \<Longrightarrow> collapseSpaces w = (if w = [] then [] else [32])"
  by (cases w) (simp_all add: dropWhile_all_nil)

lemma dropWhile_append_cases:
  "dropWhile P (xs @ ys) = (if list_all P xs then dropWhile P ys else dropWhile P xs @ ys)"
  by (induction xs) auto

lemma rtrim_collapse_append:
  "list_all isSpace w \<Longrightarrow> rtrim (collapseSpaces (s @ w)) = rtrim (collapseSpaces s)"
proof (induction s rule: collapseSpaces.induct)
  case 1
  then show ?case by (simp add: collapse_spaces_only rtrim_Cons)
next
  case (2 c cs)
  show ?case
  proof (cases "isSpace c")
    case True
    show ?thesis
    proof (cases "list_all isSpace cs")
      case all: True
      then have d: "dropWhile isSpace (cs @ w) = []" "dropWhile isSpace cs = []"
        using "2.prems" by (simp_all add: list_all_iff)
      show ?thesis unfolding append_Cons collapseSpaces.simps d using True by simp
    next
      case False
      then have "dropWhile isSpace (cs @ w) = dropWhile isSpace cs @ w"
        by (simp add: dropWhile_append_cases)
      then show ?thesis using True "2.IH"(1) "2.prems" by (simp add: rtrim_Cons)
    qed
  next
    case False
    then show ?thesis using "2.IH"(2) "2.prems" by (simp add: rtrim_Cons)
  qed
qed

lemma collapse_space_is_blank: "list_all (\<lambda>c. isSpace c \<longrightarrow> c = 32) (collapseSpaces s)"
  by (induction s rule: collapseSpaces.induct) auto

lemma set_trim: "set (trim s) \<subseteq> set s"
proof -
  have "set (trim s) \<subseteq> set (rev (dropWhile isSpace s))"
    unfolding trim_def using set_dropWhileD by fastforce
  also have "\<dots> \<subseteq> set s" using set_dropWhileD by fastforce
  finally show ?thesis .
qed

lemma trim_head: "trim s = [] \<or> \<not> isSpace (hd (trim s))"
proof (cases "dropWhile isSpace s")
  case Nil
  show ?thesis unfolding trim_rtrim Nil by simp
next
  case (Cons c x)
  then have "\<not> isSpace c" using dropWhile_hd by fastforce
  then show ?thesis using Cons by (simp add: trim_rtrim rtrim_Cons)
qed

text \<open>What a content that cleaning leaves alone looks like.\<close>

lemma normal_head: "trim (collapseSpaces c) = c \<Longrightarrow> c = [] \<or> \<not> isSpace (hd c)"
  using trim_head [of "collapseSpaces c"] by simp

lemma normal_blank: 
  assumes "trim (collapseSpaces c) = c" 
  shows "list_all (\<lambda>x. isSpace x \<longrightarrow> x = 32) c"
proof -
  have "set c \<subseteq> set (collapseSpaces c)" using set_trim [of "collapseSpaces c"] assms by simp
  then show ?thesis using collapse_space_is_blank [of c] by (auto simp: list_all_iff)
qed

lemma normal_no_terminator: 
  assumes "trim (collapseSpaces c) = c" 
  shows "list_all (\<lambda>x. \<not> isLineTerminator x) c"
  using normal_blank [OF assms] by (auto simp: list_all_iff isLineTerminator_def isSpace_def)

lemma normal_append_spaces:
  assumes n: "trim (collapseSpaces c) = c" and w: "list_all isSpace w"
  shows "trim (collapseSpaces (c @ w)) = c"
proof (cases c)
  case Nil
  then show ?thesis using w by (simp add: collapse_spaces_only trim_def)
next
  case (Cons x xs)
  then have x: "\<not> isSpace x" using normal_head [OF n] by simp
  have "trim (collapseSpaces (c @ w)) = rtrim (collapseSpaces (c @ w))"
    using Cons x by (simp add: trim_rtrim)
  also have "\<dots> = rtrim (collapseSpaces c)" using w by (rule rtrim_collapse_append)
  also have "\<dots> = trim (collapseSpaces c)" using Cons x by (simp add: trim_rtrim)
  finally show ?thesis using n by simp
qed

subsection \<open>A text that ends inside a pattern\<close>

lemma extSafe_tl: "extSafe (it # is) v \<Longrightarrow> extSafe is v"
  by simp

lemma m_items_ext: "m_items is s = None \<Longrightarrow> extSafe is v \<Longrightarrow> m_items is (s @ v) = None"
proof (induction "is" s rule: m_items.induct)
  case (1 s)
  then show ?case by simp
next
  case (2 p "is")
  then show ?case by simp
next
  case (3 p "is" c cs)
  then show ?case by (cases "p c") simp_all
next
  case (4 p "is" s)
  show ?case
  proof (cases "list_all p s")
    case True
    then have d: "dropWhile p s = []" by (simp add: list_all_iff)
    have "m_items is (dropWhile p s) = None" using "4.prems"(1) by simp
    then have "m_items (Many p # is) [] = None" unfolding d by simp
    then have "m_items (Many p # is) v = None" using "4.prems"(2) by simp
    then show ?thesis using True by (simp add: dropWhile_append_cases)
  next
    case False
    then show ?thesis using 4 by (simp add: dropWhile_append_cases)
  qed
qed

lemma m_group_None:
  "m_group pre grp post s = None \<longleftrightarrow> m_items (pre @ grp @ post) s = None"
  by (simp add: m_group_def m_items_append split: option.splits)

lemma m_plain_None: "m_plain is s = None \<longleftrightarrow> m_items is s = None"
  by (simp add: m_plain_def split: option.splits)

lemma m_group_ext:
  "m_group pre grp post s = None \<Longrightarrow> extSafe (pre @ grp @ post) v \<Longrightarrow> m_group pre grp post (s @ v) = None"
  by (simp add: m_group_None m_items_ext)

lemma m_plain_ext: "m_plain is s = None \<Longrightarrow> extSafe is v \<Longrightarrow> m_plain is (s @ v) = None"
  by (simp add: m_plain_None m_items_ext)

text \<open>A pattern of single code units none of which is a blank.\<close>

lemma extSafe_ones:
  "list_all (\<lambda>it. case it of One p \<Rightarrow> \<not> p c | Many p \<Rightarrow> False) is \<Longrightarrow> extSafe is (c # v)"
  by (induction "is") (auto split: item.splits)

lemma shift_Nil [simp]: "shift [] res = res"
  by (simp add: shift_def split: option.splits)

lemma shift_None [simp]: "shift u None = None"
  by (simp add: shift_def)

lemma shift_Some [simp]: "shift u (Some (pre, c, r)) = Some (u @ pre, c, r)"
  by (simp add: shift_def)

lemma shift_shift [simp]: "shift u (shift v res) = shift (u @ v) res"
  by (simp add: shift_def split: option.splits)

lemma search_None_suffix: "search m (a @ s) = None \<Longrightarrow> m s = None"
proof (induction a)
  case Nil
  then show ?case by (cases s) (auto split: option.splits)
next
  case (Cons x a)
  then show ?case by (auto split: option.splits)
qed

lemma search_skip_shift:
  assumes "\<And>u1 u2. u = u1 @ u2 \<Longrightarrow> u2 \<noteq> [] \<Longrightarrow> m (u2 @ v) = None"
  shows "search m (u @ v) = shift u (search m v)"
  unfolding shift_def using assms by (rule search_skip)

lemma search_lift:
  assumes c: "search m c = None"
    and blocked: "\<And>s. m s = None \<Longrightarrow> m (s @ 32 # w) = None"
  shows "search m (lead c @ w) = shift (lead c) (search m w)"
proof (cases "c = []")
  case True
  then show ?thesis by (simp add: lead_def)
next
  case False
  have "search m ((c @ [32]) @ w) = shift (c @ [32]) (search m w)"
  proof (rule search_skip_shift)
    fix u1 u2 assume u: "c @ [32] = u1 @ u2" and ne: "u2 \<noteq> []"
    then obtain s where u2: "u2 = s @ [32]" and cs: "c = u1 @ s"
      by (cases u2 rule: rev_cases) auto
    have "m s = None" using c cs search_None_suffix [of m u1 s] by simp
    then have "m (s @ 32 # w) = None" by (rule blocked)
    then show "m (u2 @ w) = None" using u2 by simp
  qed
  then show ?thesis using False by (simp add: lead_def)
qed

subsection \<open>No match straddles the end of a plain content\<close>

lemma dropWhile_space_blank [simp]: "dropWhile isSpace (32 # w) = dropWhile isSpace w"
  by (simp add: isSpace_def)

lemma dateItems_list:
  "dateItems = [One isDigit, One isDigit, One isDigit, One isDigit, One (\<lambda>d. d = 45),
                One isDigit, One isDigit, One (\<lambda>d. d = 45), One isDigit, One isDigit]"
  by (simp add: dateItems_def lits_def asc_def eval_nat_numeral)

lemma blocked_todoistId:
  assumes "p_todoistId s = None" and "safeTail w"
  shows "p_todoistId (s @ 32 # w) = None"
proof -
  have "extSafe ((lits (asc ''<!--'') @ [Many isSpace] @ lits (asc ''todoist-id:'') @ [Many isSpace])
          @ [One isDigit, Many isDigit] @ ([Many isSpace] @ lits (asc ''-->''))) (32 # w)"
    using assms(2)
    by (cases "dropWhile isSpace w")
       (auto simp add: safeTail_def lits_def asc_def isDigit_def simp del: dropWhile_eq_Nil_conv)
  then show ?thesis using assms(1) unfolding p_todoistId_def by (intro m_group_ext) simp_all
qed

lemma blocked_glyphDate:
  assumes "p_glyphDate g s = None" and "safeTail w" and "32 \<notin> set g"
  shows "p_glyphDate g (s @ 32 # w) = None"
proof -
  have tail: "extSafe ([Many isSpace] @ dateItems) (32 # w)"
    using assms(2)
    by (cases "dropWhile isSpace w")
       (auto simp add: safeTail_def dateItems_list isDigit_def simp del: dropWhile_eq_Nil_conv)
  have "extSafe (lits g @ [Many isSpace] @ dateItems) (32 # w)"
    using assms(3) tail
  proof (induction g)
    case Nil
    then show ?case by (simp add: lits_def)
  next
    case (Cons a g)
    then show ?case by (simp add: lits_def)
  qed
  then have "extSafe ((lits g @ [Many isSpace]) @ dateItems @ []) (32 # w)" by simp
  then show ?thesis using assms(1) unfolding p_glyphDate_def by (rule m_group_ext [rotated])
qed

lemma blocked_lits:
  assumes "m_plain (lits g) s = None" and "32 \<notin> set g"
  shows "m_plain (lits g) (s @ 32 # w) = None"
proof -
  have "list_all (\<lambda>it. case it of One p \<Rightarrow> \<not> p 32 | Many p \<Rightarrow> False) (lits g)"
    using assms(2) by (induction g) (auto simp: lits_def)
  then have "extSafe (lits g) (32 # w)" by (rule extSafe_ones)
  then show ?thesis using assms(1) by (intro m_plain_ext)
qed

lemma canonicalize_ascii: "c < 128 \<Longrightarrow> canonicalize U c = asciiUpper c"
  by (simp add: canonicalize_def)

lemma canonicalize_blank [simp]: "canonicalize U 32 = 32"
  by (simp add: canonicalize_def asciiUpper_def)

lemma canonicalize_low: "canonicalize U c < 128 \<longleftrightarrow> c < 128"
  by (auto simp: canonicalize_def asciiUpper_def Let_def)

lemma tagChar_canon: "isTagChar c \<Longrightarrow> canonicalize U c \<noteq> 32"
  by (auto simp: canonicalize_def asciiUpper_def isTagChar_def)

lemma blocked_lits_ci:
  assumes "m_plain (lits_ci U t) s = None" and "list_all (\<lambda>c. canonicalize U c \<noteq> 32) t"
  shows "m_plain (lits_ci U t) (s @ 32 # w) = None"
proof -
  have "list_all (\<lambda>it. case it of One p \<Rightarrow> \<not> p 32 | Many p \<Rightarrow> False) (lits_ci U t)"
    using assms(2) by (induction t) (auto simp: lits_ci_def)
  then have "extSafe (lits_ci U t) (32 # w)" by (rule extSafe_ones)
  then show ?thesis using assms(1) by (intro m_plain_ext)
qed

lemma blocked_textDueDate:
  assumes "p_textDueDate U s = None"
  shows "p_textDueDate U (s @ 32 # w) = None"
proof -
  have "list_all (\<lambda>it. case it of One p \<Rightarrow> \<not> p 32 | Many p \<Rightarrow> False)
          (lits_ci U (asc ''due:'') @ dateItems @ [])"
    by (simp add: lits_ci_def dateItems_list asc_def isDigit_def canonicalize_def asciiUpper_def)
  then have "extSafe (lits_ci U (asc ''due:'') @ dateItems @ []) (32 # w)" by (rule extSafe_ones)
  then show ?thesis using assms unfolding p_textDueDate_def by (rule m_group_ext [rotated])
qed

subsection \<open>Skipping text in which a pattern cannot start\<close>

lemma search_Cons:
  "search m (x # xs) =
     (case m (x # xs) of None \<Rightarrow> shift [x] (search m xs) | Some (c, r) \<Rightarrow> Some ([], c, r))"
  by (simp add: shift_def split: option.splits)

lemma search_skip_char:
  assumes "\<And>c s. c \<noteq> f \<Longrightarrow> m (c # s) = None" and "f \<notin> set u"
  shows "search m (u @ v) = shift u (search m v)"
proof (rule search_skip_shift)
  fix u1 u2 assume u: "u = u1 @ u2" and "u2 \<noteq> []"
  then obtain c s where u2: "u2 = c # s" by (cases u2) auto
  then have "c \<noteq> f" using assms(2) u by auto
  then show "m (u2 @ v) = None" using assms(1) u2 by simp
qed

lemma lits_first: "c \<noteq> f \<Longrightarrow> m_items (lits (f # g) @ is) (c # s) = None"
  by (simp add: lits_def)

lemma skip_todoistId:
  "60 \<notin> set u \<Longrightarrow> search p_todoistId (u @ v) = shift u (search p_todoistId v)"
  by (rule search_skip_char [where f = 60])
     (simp_all add: p_todoistId_def m_group_def lits_def asc_def)

lemma skip_glyphDate:
  "f \<notin> set u \<Longrightarrow> search (p_glyphDate (f # g)) (u @ v) = shift u (search (p_glyphDate (f # g)) v)"
  by (rule search_skip_char [where f = f])
     (simp_all add: p_glyphDate_def m_group_def lits_def)

lemma skip_plain:
  "f \<notin> set u \<Longrightarrow> search (m_plain (lits (f # g))) (u @ v) = shift u (search (m_plain (lits (f # g))) v)"
  by (rule search_skip_char [where f = f])
     (simp_all add: m_plain_def lits_def)

lemma search_free_None:
  assumes "\<And>c s. c \<noteq> f \<Longrightarrow> m (c # s) = None" and "m [] = None" and "f \<notin> set u"
  shows "search m u = None"
  using search_skip_char [of f m u "[]", OF assms(1) assms(3)] assms(2) by simp

text \<open>The textual due date needs a colon three code units after its start.\<close>

lemma canon_colon: "canonicalize U c = canonicalize U 58 \<longleftrightarrow> c = 58"
  by (auto simp: canonicalize_def asciiUpper_def Let_def)

lemma textDue_colon:
  assumes "p_textDueDate U s \<noteq> None"
  shows "\<exists>a b c r. s = a # b # c # 58 # r"
proof -
  obtain a s1 where s: "s = a # s1" using assms
    by (cases s) (auto simp: p_textDueDate_def m_group_def lits_ci_def asc_def)
  obtain b s2 where s1: "s1 = b # s2" using assms s
    by (cases s1) (auto simp: p_textDueDate_def m_group_def lits_ci_def asc_def split: if_splits)
  obtain c s3 where s2: "s2 = c # s3" using assms s s1
    by (cases s2) (auto simp: p_textDueDate_def m_group_def lits_ci_def asc_def split: if_splits)
  obtain d r where s3: "s3 = d # r" using assms s s1 s2
    by (cases s3) (auto simp: p_textDueDate_def m_group_def lits_ci_def asc_def split: if_splits)
  have "canonicalize U d = canonicalize U 58" using assms s s1 s2 s3
    by (auto simp: p_textDueDate_def m_group_def lits_ci_def asc_def split: if_splits)
  then have "d = 58" by (simp add: canon_colon)
  then show ?thesis using s s1 s2 s3 by blast
qed

lemma skip_textDueDate:
  assumes "58 \<notin> set u" and "58 \<notin> set (take 3 v)"
  shows "search (p_textDueDate U) (u @ v) = shift u (search (p_textDueDate U) v)"
proof (rule search_skip_shift)
  fix u1 u2 assume u: "u = u1 @ u2" and ne: "u2 \<noteq> []"
  show "p_textDueDate U (u2 @ v) = None"
  proof (rule ccontr)
    assume "p_textDueDate U (u2 @ v) \<noteq> None"
    from textDue_colon [OF this] obtain a b c r where e: "u2 @ v = a # b # c # 58 # r" by blast
    have "(u2 @ v) ! 3 = 58" using e by simp
    have u2f: "58 \<notin> set u2" using assms(1) u by simp
    show False
    proof (cases "3 < length u2")
      case True
      then have "u2 ! 3 = 58" using \<open>(u2 @ v) ! 3 = 58\<close> by (simp add: nth_append)
      then show False using u2f True nth_mem by metis
    next
      case False
      have "length (u2 @ v) = length (a # b # c # 58 # r)" using e by simp
      then have "length u2 + length v = 4 + length r" by simp
      then have lv: "3 - length u2 < length v" using False by arith
      have "v ! (3 - length u2) = 58" using \<open>(u2 @ v) ! 3 = 58\<close> False by (simp add: nth_append)
      moreover have "3 - length u2 < 3" using ne by (cases u2) auto
      ultimately have "58 \<in> set (take 3 v)"
        using lv by (auto simp: in_set_conv_nth intro!: exI [of _ "3 - length u2"])
      then show False using assms(2) by simp
    qed
  qed
qed

subsection \<open>The parts of a built line\<close>

lemma digit_not_space: "isDigit c \<Longrightarrow> \<not> isSpace c"
  by (auto simp: isDigit_def isSpace_def)

lemma tagChar_not_space: "isTagChar c \<Longrightarrow> \<not> isSpace c"
  by (auto simp: isTagChar_def isSpace_def)

lemma tagArea_append [simp]: "tagArea (u @ v) \<longleftrightarrow> tagArea u \<and> tagArea v"
  by (simp add: tagArea_def)

lemma tagArea_free: "tagArea u \<Longrightarrow> f \<noteq> 32 \<Longrightarrow> f \<noteq> 35 \<Longrightarrow> \<not> isTagChar f \<Longrightarrow> f \<notin> set u"
  by (auto simp: tagArea_def list_all_iff)

lemma tagArea_name: "list_all isTagChar l \<Longrightarrow> tagArea l"
  by (auto simp: tagArea_def list_all_iff)

lemma tagArea_marker: "validMarker t \<Longrightarrow> tagArea t"
  by (cases t) (auto simp: validMarker_def tagArea_def list_all_iff)

lemma tagArea_labelPart: "list_all (validLabel marker) ls \<Longrightarrow> tagArea (labelPart ls)"
  by (induction ls) (auto simp: labelPart_def tagArea_def validLabel_def list_all_iff)

lemma validDate_shape:
  assumes "validDate x"
  shows "\<exists>a b c d e f g h. x = [a, b, c, d, 45, e, f, 45, g, h] \<and> isDigit a \<and> isDigit b \<and> isDigit c
           \<and> isDigit d \<and> isDigit e \<and> isDigit f \<and> isDigit g \<and> isDigit h"
proof -
  have m: "m_items dateItems x = Some []" using assms by (simp add: validDate_def)
  obtain a x1 where 1: "x = a # x1" using m by (cases x) (auto simp: dateItems_list)
  obtain b x2 where 2: "x1 = b # x2" using m 1 by (cases x1) (auto simp: dateItems_list split: if_splits)
  obtain c x3 where 3: "x2 = c # x3" using m 1 2 by (cases x2) (auto simp: dateItems_list split: if_splits)
  obtain d x4 where 4: "x3 = d # x4" using m 1 2 3 by (cases x3) (auto simp: dateItems_list split: if_splits)
  obtain m1 x5 where 5: "x4 = m1 # x5" using m 1 2 3 4 by (cases x4) (auto simp: dateItems_list split: if_splits)
  obtain e x6 where 6: "x5 = e # x6" using m 1 2 3 4 5 by (cases x5) (auto simp: dateItems_list split: if_splits)
  obtain f x7 where 7: "x6 = f # x7" using m 1 2 3 4 5 6 by (cases x6) (auto simp: dateItems_list split: if_splits)
  obtain m2 x8 where 8: "x7 = m2 # x8" using m 1 2 3 4 5 6 7 by (cases x7) (auto simp: dateItems_list split: if_splits)
  obtain g x9 where 9: "x8 = g # x9" using m 1 2 3 4 5 6 7 8 by (cases x8) (auto simp: dateItems_list split: if_splits)
  obtain h x10 where 10: "x9 = h # x10" using m 1 2 3 4 5 6 7 8 9 by (cases x9) (auto simp: dateItems_list split: if_splits)
  have "x10 = [] \<and> m1 = 45 \<and> m2 = 45 \<and> isDigit a \<and> isDigit b \<and> isDigit c
           \<and> isDigit d \<and> isDigit e \<and> isDigit f \<and> isDigit g \<and> isDigit h"
    using m 1 2 3 4 5 6 7 8 9 10 by (auto simp: dateItems_list split: if_splits)
  then show ?thesis using 1 2 3 4 5 6 7 8 9 10 by blast
qed

lemma validDate_chars: "validDate x \<Longrightarrow> c \<in> set x \<Longrightarrow> isDigit c \<or> c = 45"
  using validDate_shape [of x] by auto

lemma validDate_nonempty: "validDate x \<Longrightarrow> x \<noteq> []"
  using validDate_shape [of x] by auto

lemma date_match: "validDate x \<Longrightarrow> m_items dateItems (x @ z) = Some z"
  using validDate_shape [of x] by (auto simp: dateItems_list)

lemma date_length: "validDate x \<Longrightarrow> length x = 10"
  using validDate_shape [of x] by auto

lemma duePart_Some: "validDate x \<Longrightarrow> duePart (Some x) = 32 # dueDateGlyph @ 32 # x"
  by (simp add: duePart_def validDate_nonempty)

lemma idPart_Some: "validId x \<Longrightarrow> idPart (Some x) = 32 # asc ''<!-- todoist-id:'' @ x @ asc '' -->''"
  by (simp add: idPart_def validId_def asc_def)

lemma duePart_chars:
  "okDue d \<Longrightarrow> c \<in> set (duePart d) \<Longrightarrow> c = 32 \<or> c \<in> set dueDateGlyph \<or> isDigit c \<or> c = 45"
  by (cases d) (auto simp: okDue_def duePart_def dest: validDate_chars split: if_splits)

lemma idPart_chars: "okId i \<Longrightarrow> c \<in> set (idPart i) \<Longrightarrow> c < 128"
  by (cases i) (auto simp: okId_def idPart_def validId_def asc_def isDigit_def list_all_iff split: if_splits)

lemma prioPart_chars:
  "c \<in> set (prioPart pr) \<Longrightarrow> c = 32 \<or> c \<in> set highPriorityGlyph \<or> c \<in> set mediumPriorityGlyph
     \<or> c \<in> set lowPriorityGlyph"
  by (cases pr) auto

lemma hit_todoistId:
  assumes "validId x"
  shows "p_todoistId (asc ''<!-- todoist-id:'' @ x @ asc '' -->'') = Some (x, [])"
proof -
  obtain d ds where x: "x = d # ds" and d: "isDigit d" and ds: "list_all isDigit ds"
    using assms by (cases x) (auto simp: validId_def)
  have sp: "\<not> isSpace d" using d by (rule digit_not_space)
  have dw: "dropWhile isDigit (ds @ [32, 45, 45, 62]) = [32, 45, 45, 62]"
    using ds by (simp add: dropWhile_stop isDigit_def)
  show ?thesis
    using d by (simp add: p_todoistId_def m_group_def lits_def asc_def x dw isSpace_def isDigit_def)
qed

lemma search_todoistId_tail:
  assumes "60 \<notin> set u" and "okId i"
  shows "search p_todoistId (u @ idPart i) =
           (case i of None \<Rightarrow> None | Some x \<Rightarrow> Some (u @ [32], x, []))"
proof (cases i)
  case None
  have "p_todoistId [] = None" by (simp add: p_todoistId_def m_group_def lits_def asc_def)
  then show ?thesis using None skip_todoistId [OF assms(1), of "[]"] by (simp add: idPart_def)
next
  case (Some x)
  then have v: "validId x" using assms(2) by (simp add: okId_def)
  have miss: "p_todoistId (32 # asc ''<!-- todoist-id:'' @ x @ asc '' -->'') = None"
    by (simp add: p_todoistId_def m_group_def lits_def asc_def)
  have "search p_todoistId (32 # asc ''<!-- todoist-id:'' @ x @ asc '' -->'')
          = Some ([32], x, [])"
    using miss search_hit [of p_todoistId "asc ''<!-- todoist-id:'' @ x @ asc '' -->''" x "[]"]
      hit_todoistId [OF v] by (simp add: search_Cons)
  then show ?thesis using Some skip_todoistId [OF assms(1), of "idPart i"] v by (simp add: idPart_Some)
qed

subsection \<open>Parts that a pattern skips\<close>

lemma skipsD: "skips m x \<Longrightarrow> search m (x @ v) = shift x (search m v)"
  by (simp add: skips_def)

lemma skips_Nil [simp]: "skips m []"
  by (simp add: skips_def)

lemma skips_append: "skips m x \<Longrightarrow> skips m y \<Longrightarrow> skips m (x @ y)"
  by (simp add: skips_def)

lemma skips_None: "skips m x \<Longrightarrow> search m [] = None \<Longrightarrow> search m x = None"
  using skipsD [of m x "[]"] by simp

lemma skips_char:
  assumes "\<And>c s. c \<noteq> f \<Longrightarrow> m (c # s) = None" and "f \<notin> set x"
  shows "skips m x"
  unfolding skips_def
proof
  fix v
  show "search m (x @ v) = shift x (search m v)"
  proof (rule search_skip_char [where f = f])
    show "\<And>c s. c \<noteq> f \<Longrightarrow> m (c # s) = None" by (rule assms(1))
    show "f \<notin> set x" by (rule assms(2))
  qed
qed

lemma skips_blanks:
  assumes "\<And>s. m (32 # s) = None" and "blanks b"
  shows "skips m b"
  unfolding skips_def
proof
  fix v
  show "search m (b @ v) = shift b (search m v)"
  proof (rule search_skip_shift)
    fix u1 u2 assume "b = u1 @ u2" and "u2 \<noteq> []"
    then obtain s where "u2 = 32 # s" using assms(2) by (cases u2) (auto simp: blanks_def)
    then show "m (u2 @ v) = None" using assms(1) by simp
  qed
qed

text \<open>The first code unit of each pattern.\<close>

lemma first_todoistId: "c \<noteq> 60 \<Longrightarrow> p_todoistId (c # s) = None"
  by (simp add: p_todoistId_def m_group_def lits_def asc_def)

lemma first_dueDate: "c \<noteq> 63743 \<Longrightarrow> p_dueDate (c # s) = None"
  by (simp add: p_dueDate_def p_glyphDate_def dueDateGlyph_def m_group_def lits_def)

lemma first_scheduledDate: "c \<noteq> 8218 \<Longrightarrow> p_scheduledDate (c # s) = None"
  by (simp add: p_scheduledDate_def p_glyphDate_def scheduledDateGlyph_def m_group_def lits_def)

lemma first_startDate: "c \<noteq> 63743 \<Longrightarrow> p_startDate (c # s) = None"
  by (simp add: p_startDate_def p_glyphDate_def startDateGlyph_def m_group_def lits_def)

lemma first_doneDate: "c \<noteq> 8218 \<Longrightarrow> p_doneDate (c # s) = None"
  by (simp add: p_doneDate_def p_glyphDate_def doneDateGlyph_def m_group_def lits_def)

lemma first_highPriority: "c \<noteq> 8218 \<Longrightarrow> p_highPriority (c # s) = None"
  by (simp add: p_highPriority_def highPriorityGlyph_def m_plain_def lits_def)

lemma first_mediumPriority: "c \<noteq> 63743 \<Longrightarrow> p_mediumPriority (c # s) = None"
  by (simp add: p_mediumPriority_def mediumPriorityGlyph_def m_plain_def lits_def)

lemma first_lowPriority: "c \<noteq> 63743 \<Longrightarrow> p_lowPriority (c # s) = None"
  by (simp add: p_lowPriority_def lowPriorityGlyph_def m_plain_def lits_def)

lemma empty_patterns [simp]:
  "p_todoistId [] = None" "p_dueDate [] = None" "p_scheduledDate [] = None"
  "p_startDate [] = None" "p_doneDate [] = None" "p_highPriority [] = None"
  "p_mediumPriority [] = None" "p_lowPriority [] = None"
  "p_textDueDate U [] = None"
  by (simp_all add: p_todoistId_def p_dueDate_def p_scheduledDate_def p_startDate_def p_doneDate_def
      p_highPriority_def p_mediumPriority_def p_lowPriority_def p_textDueDate_def p_glyphDate_def
      m_group_def m_plain_def lits_def lits_ci_def asc_def
      dueDateGlyph_def scheduledDateGlyph_def startDateGlyph_def doneDateGlyph_def
      highPriorityGlyph_def mediumPriorityGlyph_def lowPriorityGlyph_def)

text \<open>Glyph characters are not in the marker, the labels or the id comment.\<close>

lemma tagArea_glyph_free: "tagArea u \<Longrightarrow> 63743 \<notin> set u \<and> 8218 \<notin> set u \<and> 60 \<notin> set u \<and> 58 \<notin> set u"
  by (auto simp: tagArea_def list_all_iff isTagChar_def)

lemma idPart_glyph_free: "okId i \<Longrightarrow> 63743 \<notin> set (idPart i) \<and> 8218 \<notin> set (idPart i)"
  using idPart_chars [of i] by fastforce

lemma prioPart_free: "60 \<notin> set (prioPart pr) \<and> 58 \<notin> set (prioPart pr) \<and> 35 \<notin> set (prioPart pr)"
  by (cases pr) (simp_all add: highPriorityGlyph_def mediumPriorityGlyph_def lowPriorityGlyph_def)

lemma duePart_free:
  "okDue d \<Longrightarrow> 60 \<notin> set (duePart d) \<and> 58 \<notin> set (duePart d) \<and> 35 \<notin> set (duePart d)
     \<and> 8218 \<notin> set (duePart d)"
  using duePart_chars [of d] by (fastforce simp: dueDateGlyph_def isDigit_def)

text \<open>The priority part and the due part under each glyph pattern.\<close>

lemmas glyph_defs = dueDateGlyph_def scheduledDateGlyph_def startDateGlyph_def doneDateGlyph_def
  highPriorityGlyph_def mediumPriorityGlyph_def lowPriorityGlyph_def

lemmas pattern_defs = p_dueDate_def p_scheduledDate_def p_startDate_def p_doneDate_def
  p_highPriority_def p_mediumPriority_def p_lowPriority_def p_glyphDate_def m_group_def m_plain_def
  lits_def

lemma dueDate_skips_prio: "skips p_dueDate (prioPart pr)"
  unfolding skips_def
  by (cases pr) (simp_all add: pattern_defs glyph_defs shift_def split: option.splits)

lemma scheduledDate_skips_prio: "skips p_scheduledDate (prioPart pr)"
  unfolding skips_def
  by (cases pr) (simp_all add: pattern_defs glyph_defs shift_def split: option.splits)

lemma startDate_skips_prio: "skips p_startDate (prioPart pr)"
  unfolding skips_def
  by (cases pr) (simp_all add: pattern_defs glyph_defs shift_def split: option.splits)

lemma doneDate_skips_prio: "skips p_doneDate (prioPart pr)"
  unfolding skips_def
  by (cases pr) (simp_all add: pattern_defs glyph_defs shift_def split: option.splits)

lemma highPriority_skips_prio: "pr \<noteq> HIGH \<Longrightarrow> skips p_highPriority (prioPart pr)"
  unfolding skips_def
  by (cases pr) (simp_all add: pattern_defs glyph_defs shift_def split: option.splits)

lemma mediumPriority_skips_prio: "pr \<noteq> MEDIUM \<Longrightarrow> skips p_mediumPriority (prioPart pr)"
  unfolding skips_def
  by (cases pr) (simp_all add: pattern_defs glyph_defs shift_def split: option.splits)

lemma lowPriority_skips_prio: "pr \<noteq> LOW \<Longrightarrow> skips p_lowPriority (prioPart pr)"
  unfolding skips_def
  by (cases pr) (simp_all add: pattern_defs glyph_defs shift_def split: option.splits)

lemma miss_start_due: "p_startDate (63743 # 252 # 236 # s) = None"
  by (simp add: pattern_defs glyph_defs)

lemma miss_medium_due: "p_mediumPriority (63743 # 252 # 236 # s) = None"
  by (simp add: pattern_defs glyph_defs)

lemma miss_low_due: "p_lowPriority (63743 # 252 # 236 # s) = None"
  by (simp add: pattern_defs glyph_defs)

lemma date_glyph_free: "validDate x \<Longrightarrow> 63743 \<notin> set x \<and> 8218 \<notin> set x"
  using validDate_chars [of x] by (fastforce simp: isDigit_def)

lemma scheduledDate_skips_due: "okDue d \<Longrightarrow> skips p_scheduledDate (duePart d)"
  using duePart_free [of d] by (intro skips_char [where f = 8218]) (simp_all add: first_scheduledDate)

lemma doneDate_skips_due: "okDue d \<Longrightarrow> skips p_doneDate (duePart d)"
  using duePart_free [of d] by (intro skips_char [where f = 8218]) (simp_all add: first_doneDate)

lemma highPriority_skips_due: "okDue d \<Longrightarrow> skips p_highPriority (duePart d)"
  using duePart_free [of d] by (intro skips_char [where f = 8218]) (simp_all add: first_highPriority)

lemma startDate_skips_due:
  assumes "okDue d"
  shows "skips p_startDate (duePart d)"
proof (cases d)
  case None
  then show ?thesis by (simp add: duePart_def)
next
  case (Some x)
  then have v: "validDate x" using assms by (simp add: okDue_def)
  have sx: "\<And>v. search p_startDate (x @ v) = shift x (search p_startDate v)"
    using date_glyph_free [OF v]
    by (intro search_skip_char [where f = 63743]) (simp_all add: first_startDate)
  show ?thesis
    unfolding skips_def Some duePart_Some [OF v] dueDateGlyph_def
    by (simp add: search_Cons first_startDate miss_start_due sx del: search.simps)
qed

lemma mediumPriority_skips_due:
  assumes "okDue d"
  shows "skips p_mediumPriority (duePart d)"
proof (cases d)
  case None
  then show ?thesis by (simp add: duePart_def)
next
  case (Some x)
  then have v: "validDate x" using assms by (simp add: okDue_def)
  have sx: "\<And>v. search p_mediumPriority (x @ v) = shift x (search p_mediumPriority v)"
    using date_glyph_free [OF v]
    by (intro search_skip_char [where f = 63743]) (simp_all add: first_mediumPriority)
  show ?thesis
    unfolding skips_def Some duePart_Some [OF v] dueDateGlyph_def
    by (simp add: search_Cons first_mediumPriority miss_medium_due sx del: search.simps)
qed

lemma lowPriority_skips_due:
  assumes "okDue d"
  shows "skips p_lowPriority (duePart d)"
proof (cases d)
  case None
  then show ?thesis by (simp add: duePart_def)
next
  case (Some x)
  then have v: "validDate x" using assms by (simp add: okDue_def)
  have sx: "\<And>v. search p_lowPriority (x @ v) = shift x (search p_lowPriority v)"
    using date_glyph_free [OF v]
    by (intro search_skip_char [where f = 63743]) (simp_all add: first_lowPriority)
  show ?thesis
    unfolding skips_def Some duePart_Some [OF v] dueDateGlyph_def
    by (simp add: search_Cons first_lowPriority miss_low_due sx del: search.simps)
qed

text \<open>Every glyph pattern skips the marker, the labels and the id comment.\<close>

lemma glyph_skips_free:
  assumes "63743 \<notin> set u" and "8218 \<notin> set u"
  shows "skips p_dueDate u" "skips p_scheduledDate u" "skips p_startDate u" "skips p_doneDate u"
    "skips p_highPriority u" "skips p_mediumPriority u" "skips p_lowPriority u"
  using assms
  by (auto intro: skips_char [where f = 63743] skips_char [where f = 8218]
      simp: first_dueDate first_scheduledDate first_startDate first_doneDate
        first_highPriority first_mediumPriority first_lowPriority)

lemma blanks_free: "blanks b \<Longrightarrow> f \<noteq> 32 \<Longrightarrow> f \<notin> set b"
  by (auto simp: blanks_def list_all_iff)

subsection \<open>Matches\<close>

lemma hit_dueDate:
  assumes "validDate x"
  shows "p_dueDate (dueDateGlyph @ 32 # x @ z) = Some (x, z)"
proof -
  obtain a r where x: "x = a # r" and a: "isDigit a"
    using validDate_shape [OF assms] by auto
  have sp: "dropWhile isSpace (x @ z) = x @ z" using x digit_not_space [OF a] by simp
  show ?thesis
    by (simp add: p_dueDate_def p_glyphDate_def m_group_def lits_def dueDateGlyph_def sp
        date_match [OF assms] date_length [OF assms])
qed

lemma hit_highPriority: "p_highPriority (highPriorityGlyph @ z) = Some ((), z)"
  by (simp add: pattern_defs glyph_defs)

lemma hit_mediumPriority: "p_mediumPriority (mediumPriorityGlyph @ z) = Some ((), z)"
  by (simp add: pattern_defs glyph_defs)

lemma hit_lowPriority: "p_lowPriority (lowPriorityGlyph @ z) = Some ((), z)"
  by (simp add: pattern_defs glyph_defs)

subsection \<open>Lifting over a plain content\<close>

lemma glyph_no_blank:
  "32 \<notin> set dueDateGlyph" "32 \<notin> set scheduledDateGlyph" "32 \<notin> set startDateGlyph"
  "32 \<notin> set doneDateGlyph" "32 \<notin> set highPriorityGlyph" "32 \<notin> set mediumPriorityGlyph"
  "32 \<notin> set lowPriorityGlyph"
  by (simp_all add: glyph_defs)

lemma lift_todoistId:
  "plainContent U marker c \<Longrightarrow> safeTail w \<Longrightarrow>
   search p_todoistId (lead c @ w) = shift (lead c) (search p_todoistId w)"
  by (intro search_lift blocked_todoistId) (simp_all add: plainContent_def)

lemma lift_dueDate:
  "plainContent U marker c \<Longrightarrow> safeTail w \<Longrightarrow>
   search p_dueDate (lead c @ w) = shift (lead c) (search p_dueDate w)"
  unfolding p_dueDate_def
  by (intro search_lift blocked_glyphDate) (simp_all add: plainContent_def p_dueDate_def glyph_no_blank)

lemma lift_scheduledDate:
  "plainContent U marker c \<Longrightarrow> safeTail w \<Longrightarrow>
   search p_scheduledDate (lead c @ w) = shift (lead c) (search p_scheduledDate w)"
  unfolding p_scheduledDate_def
  by (intro search_lift blocked_glyphDate) (simp_all add: plainContent_def p_scheduledDate_def glyph_no_blank)

lemma lift_startDate:
  "plainContent U marker c \<Longrightarrow> safeTail w \<Longrightarrow>
   search p_startDate (lead c @ w) = shift (lead c) (search p_startDate w)"
  unfolding p_startDate_def
  by (intro search_lift blocked_glyphDate) (simp_all add: plainContent_def p_startDate_def glyph_no_blank)

lemma lift_doneDate:
  "plainContent U marker c \<Longrightarrow> safeTail w \<Longrightarrow>
   search p_doneDate (lead c @ w) = shift (lead c) (search p_doneDate w)"
  unfolding p_doneDate_def
  by (intro search_lift blocked_glyphDate) (simp_all add: plainContent_def p_doneDate_def glyph_no_blank)

lemma lift_highPriority:
  "plainContent U marker c \<Longrightarrow>
   search p_highPriority (lead c @ w) = shift (lead c) (search p_highPriority w)"
  unfolding p_highPriority_def
  by (intro search_lift blocked_lits) (simp_all add: plainContent_def p_highPriority_def glyph_no_blank)

lemma lift_mediumPriority:
  "plainContent U marker c \<Longrightarrow>
   search p_mediumPriority (lead c @ w) = shift (lead c) (search p_mediumPriority w)"
  unfolding p_mediumPriority_def
  by (intro search_lift blocked_lits) (simp_all add: plainContent_def p_mediumPriority_def glyph_no_blank)

lemma lift_lowPriority:
  "plainContent U marker c \<Longrightarrow>
   search p_lowPriority (lead c @ w) = shift (lead c) (search p_lowPriority w)"
  unfolding p_lowPriority_def
  by (intro search_lift blocked_lits) (simp_all add: plainContent_def p_lowPriority_def glyph_no_blank)

lemma lift_textDueDate:
  "plainContent U marker c \<Longrightarrow>
   search (p_textDueDate U) (lead c @ w) = shift (lead c) (search (p_textDueDate U) w)"
  by (intro search_lift blocked_textDueDate) (simp_all add: plainContent_def)

subsection \<open>The patterns on the text after the content\<close>

lemma safeTail_marker: "validMarker t \<Longrightarrow> safeTail (t @ w)"
  by (cases t) (auto simp: validMarker_def safeTail_def isSpace_def isDigit_def)

lemma dueDate_at_due:
  assumes "okDue d" and "skips p_dueDate z"
  shows "search p_dueDate (duePart d @ z) = (case d of None \<Rightarrow> None | Some x \<Rightarrow> Some ([32], x, z))"
proof (cases d)
  case None
  then show ?thesis using skips_None [OF assms(2)] by (simp add: duePart_def)
next
  case (Some x)
  then have v: "validDate x" using assms(1) by (simp add: okDue_def)
  have "search p_dueDate (dueDateGlyph @ 32 # x @ z) = Some ([], x, z)"
    using search_hit [of p_dueDate "dueDateGlyph @ 32 # x @ z" x z] hit_dueDate [OF v] by simp
  then show ?thesis
    using Some by (simp add: duePart_Some [OF v] search_Cons first_dueDate del: search.simps)
qed

lemma highPriority_at_prio:
  "search p_highPriority (prioPart pr @ z) =
     (if pr = HIGH then Some ([32], (), z) else shift (prioPart pr) (search p_highPriority z))"
proof (cases "pr = HIGH")
  case True
  have "search p_highPriority (highPriorityGlyph @ z) = Some ([], (), z)"
    using search_hit [of p_highPriority "highPriorityGlyph @ z" "()" z] hit_highPriority by simp
  then show ?thesis using True by (simp add: search_Cons first_highPriority del: search.simps)
next
  case False
  then show ?thesis using skipsD [OF highPriority_skips_prio [OF False]] by simp
qed

lemma mediumPriority_at_prio:
  "search p_mediumPriority (prioPart pr @ z) =
     (if pr = MEDIUM then Some ([32], (), z) else shift (prioPart pr) (search p_mediumPriority z))"
proof (cases "pr = MEDIUM")
  case True
  have "search p_mediumPriority (mediumPriorityGlyph @ z) = Some ([], (), z)"
    using search_hit [of p_mediumPriority "mediumPriorityGlyph @ z" "()" z] hit_mediumPriority by simp
  then show ?thesis using True by (simp add: search_Cons first_mediumPriority del: search.simps)
next
  case False
  then show ?thesis using skipsD [OF mediumPriority_skips_prio [OF False]] by simp
qed

lemma lowPriority_at_prio:
  "search p_lowPriority (prioPart pr @ z) =
     (if pr = LOW then Some ([32], (), z) else shift (prioPart pr) (search p_lowPriority z))"
proof (cases "pr = LOW")
  case True
  have "search p_lowPriority (lowPriorityGlyph @ z) = Some ([], (), z)"
    using search_hit [of p_lowPriority "lowPriorityGlyph @ z" "()" z] hit_lowPriority by simp
  then show ?thesis using True by (simp add: search_Cons first_lowPriority del: search.simps)
next
  case False
  then show ?thesis using skipsD [OF lowPriority_skips_prio [OF False]] by simp
qed

text \<open>The textual due date.\<close>

lemma textDue_no_colon: "58 \<notin> set u \<Longrightarrow> search (p_textDueDate U) u = None"
  using skip_textDueDate [of u "[]" U] by simp

lemma first_textDue: "canonicalize U c \<noteq> 68 \<Longrightarrow> p_textDueDate U (c # s) = None"
  by (simp add: p_textDueDate_def m_group_def lits_ci_def asc_def canonicalize_def asciiUpper_def)

lemma second_textDue: "canonicalize U c \<noteq> 85 \<Longrightarrow> p_textDueDate U (d # c # s) = None"
  by (simp add: p_textDueDate_def m_group_def lits_ci_def asc_def canonicalize_def asciiUpper_def)

lemma textDue_idPart:
  assumes "okId i"
  shows "search (p_textDueDate U) (idPart i) = None"
proof (cases i)
  case None
  then show ?thesis by (simp add: idPart_def)
next
  case (Some x)
  then have v: "validId x" using assms by (simp add: okId_def)
  have "58 \<notin> set (x @ asc '' -->'')"
    using v by (auto simp: validId_def list_all_iff isDigit_def asc_def)
  then have tail: "search (p_textDueDate U) (x @ asc '' -->'') = None" by (rule textDue_no_colon)
  have "search (p_textDueDate U) (32 # asc ''<!-- todoist-id:'' @ x @ asc '' -->'') = None"
    unfolding asc_def [of "''<!-- todoist-id:''"]
    using tail
    by (simp add: search_Cons first_textDue second_textDue canonicalize_def asciiUpper_def
        del: search.simps)
  then show ?thesis using Some by (simp add: idPart_Some [OF v])
qed

lemma idPart_take3: "okId i \<Longrightarrow> 58 \<notin> set (take 3 (idPart i))"
  by (cases i) (auto simp: okId_def idPart_def validId_def asc_def)

subsection \<open>The fields read from a built line\<close>

lemma read_todoistId:
  assumes pc: "plainContent U marker c" and vm: "validMarker marker"
    and vl: "list_all (validLabel marker) ls" and od: "okDue d" and oi: "okId i"
  shows "search p_todoistId (lead c @ marker @ labelPart ls @ prioPart pr @ duePart d @ idPart i) =
           (case i of None \<Rightarrow> None
            | Some x \<Rightarrow> Some (lead c @ marker @ labelPart ls @ prioPart pr @ duePart d @ [32], x, []))"
proof -
  let ?u = "marker @ labelPart ls @ prioPart pr @ duePart d"
  have free: "60 \<notin> set ?u"
    using tagArea_glyph_free [OF tagArea_marker [OF vm]] tagArea_glyph_free [OF tagArea_labelPart [OF vl]]
      prioPart_free [of pr] duePart_free [OF od] by simp
  have st: "safeTail (?u @ idPart i)" using safeTail_marker [OF vm] by simp
  have "search p_todoistId (lead c @ ?u @ idPart i) = shift (lead c) (search p_todoistId (?u @ idPart i))"
    using lift_todoistId [OF pc st] .
  then show ?thesis
    using search_todoistId_tail [OF free oi] by (simp split: option.splits)
qed

lemma read_dueDate:
  assumes pc: "plainContent U marker c" and vm: "validMarker marker"
    and vl: "list_all (validLabel marker) ls" and od: "okDue d" and oi: "okId i"
  shows "extractDueDate U (lead c @ marker @ labelPart ls @ prioPart pr @ duePart d @ idPart i) = d"
proof -
  let ?a = "marker @ labelPart ls"
  let ?t = "?a @ prioPart pr @ duePart d @ idPart i"
  have ta: "tagArea ?a" using tagArea_marker [OF vm] tagArea_labelPart [OF vl] by simp
  have af: "63743 \<notin> set ?a" "8218 \<notin> set ?a" "58 \<notin> set ?a"
    using tagArea_glyph_free [OF ta] by simp_all
  have st: "safeTail ?t" using safeTail_marker [OF vm] by simp
  have idf: "63743 \<notin> set (idPart i)" "8218 \<notin> set (idPart i)"
    using idPart_glyph_free [OF oi] by simp_all
  have due: "search p_dueDate (lead c @ ?t) =
      shift (lead c @ ?a @ prioPart pr) (case d of None \<Rightarrow> None | Some x \<Rightarrow> Some ([32], x, idPart i))"
    using lift_dueDate [OF pc st] skipsD [OF glyph_skips_free(1) [OF af(1,2)]]
      skipsD [OF dueDate_skips_prio] dueDate_at_due [OF od glyph_skips_free(1) [OF idf]]
    by simp
  show ?thesis
  proof (cases d)
    case (Some x)
    then show ?thesis using due by (simp add: extractDueDate_def rx_match1_def)
  next
    case None
    have sched: "search p_scheduledDate (lead c @ ?t) = None"
      using lift_scheduledDate [OF pc st] skipsD [OF glyph_skips_free(2) [OF af(1,2)]]
        skipsD [OF scheduledDate_skips_prio] skipsD [OF scheduledDate_skips_due [OF od]]
        skips_None [OF glyph_skips_free(2) [OF idf]]
      by simp
    have colon: "58 \<notin> set (?a @ prioPart pr @ duePart d)"
      using af(3) prioPart_free [of pr] duePart_free [OF od] by simp
    have "search (p_textDueDate U) ((?a @ prioPart pr @ duePart d) @ idPart i) = None"
      using skip_textDueDate [OF colon idPart_take3 [OF oi]] textDue_idPart [OF oi] by simp
    then have tdd: "search (p_textDueDate U) (lead c @ ?t) = None"
      using lift_textDueDate [OF pc, of "?t"] by simp
    show ?thesis using None due sched tdd by (simp add: extractDueDate_def rx_match1_def)
  qed
qed

lemma read_priority:
  assumes pc: "plainContent U marker c" and vm: "validMarker marker"
    and vl: "list_all (validLabel marker) ls" and od: "okDue d" and oi: "okId i"
  shows "extractPriority (lead c @ marker @ labelPart ls @ prioPart pr @ duePart d @ idPart i) = pr"
proof -
  let ?a = "marker @ labelPart ls"
  let ?z = "duePart d @ idPart i"
  have ta: "tagArea ?a" using tagArea_marker [OF vm] tagArea_labelPart [OF vl] by simp
  have af: "63743 \<notin> set ?a" "8218 \<notin> set ?a"
    using tagArea_glyph_free [OF ta] by simp_all
  have idf: "63743 \<notin> set (idPart i)" "8218 \<notin> set (idPart i)"
    using idPart_glyph_free [OF oi] by simp_all
  have zh: "search p_highPriority ?z = None"
    using skips_None [OF skips_append [OF highPriority_skips_due [OF od] glyph_skips_free(5) [OF idf]]] by simp
  have zm: "search p_mediumPriority ?z = None"
    using skips_None [OF skips_append [OF mediumPriority_skips_due [OF od] glyph_skips_free(6) [OF idf]]] by simp
  have zl: "search p_lowPriority ?z = None"
    using skips_None [OF skips_append [OF lowPriority_skips_due [OF od] glyph_skips_free(7) [OF idf]]] by simp
  have h: "rx_test p_highPriority (lead c @ ?a @ prioPart pr @ ?z) \<longleftrightarrow> pr = HIGH"
    using lift_highPriority [OF pc, of "?a @ prioPart pr @ ?z"] skipsD [OF glyph_skips_free(5) [OF af]]
      highPriority_at_prio [of pr ?z] zh
    by (simp add: rx_test_def)
  have m: "rx_test p_mediumPriority (lead c @ ?a @ prioPart pr @ ?z) \<longleftrightarrow> pr = MEDIUM"
    using lift_mediumPriority [OF pc, of "?a @ prioPart pr @ ?z"] skipsD [OF glyph_skips_free(6) [OF af]]
      mediumPriority_at_prio [of pr ?z] zm
    by (simp add: rx_test_def)
  have l: "rx_test p_lowPriority (lead c @ ?a @ prioPart pr @ ?z) \<longleftrightarrow> pr = LOW"
    using lift_lowPriority [OF pc, of "?a @ prioPart pr @ ?z"] skipsD [OF glyph_skips_free(7) [OF af]]
      lowPriority_at_prio [of pr ?z] zl
    by (simp add: rx_test_def)
  show ?thesis using h m l by (cases pr) (simp_all add: extractPriority_def)
qed

subsection \<open>Hashtags\<close>

lemma takeWhile_tag_append:
  "takeWhile isTagChar (cs @ 32 # v) = takeWhile isTagChar cs"
  by (induction cs) (auto simp: isTagChar_def)

lemma hashtags_plain_blank: "hashtags c = [] \<Longrightarrow> hashtags (c @ 32 # v) = hashtags v"
proof (induction c rule: hashtags.induct)
  case 1
  then show ?case by (simp add: isTagChar_def)
next
  case (2 x cs)
  have no: "\<not> (x = 35 \<and> takeWhile isTagChar cs \<noteq> [])"
    using "2.prems" by (auto split: if_splits)
  then have "hashtags cs = []" using "2.prems" by (auto split: if_splits)
  then have "hashtags (cs @ 32 # v) = hashtags v" using "2.IH"(2) no by blast
  moreover have "\<not> (x = 35 \<and> takeWhile isTagChar (cs @ 32 # v) \<noteq> [])"
    using no by (simp add: takeWhile_tag_append)
  ultimately show ?case by (cases "x = 35") simp_all
qed

lemma hashtags_lead: "hashtags c = [] \<Longrightarrow> hashtags (lead c @ v) = hashtags v"
  using hashtags_plain_blank [of c v] by (simp add: lead_def)

lemma hashtags_free: "35 \<notin> set v \<Longrightarrow> hashtags v = []"
  by (induction v rule: hashtags.induct) auto

lemma hashtags_name:
  assumes "list_all isTagChar l" and "l \<noteq> []" and "v = [] \<or> \<not> isTagChar (hd v)"
  shows "hashtags (35 # l @ v) = l # hashtags v"
proof -
  have t: "takeWhile isTagChar (l @ v) = l"
    using assms(1,3) by (cases v) (simp_all add: takeWhile_stop list_all_iff)
  have d: "dropWhile isTagChar (l @ v) = v"
    using assms(1,3) by (cases v) (simp_all add: dropWhile_stop list_all_iff)
  show ?thesis using assms(2) by (simp add: t d)
qed

lemma prioPart_head: "prioPart pr = [] \<or> hd (prioPart pr) = 32"
  by (cases pr) simp_all

lemma duePart_head: "duePart d = [] \<or> hd (duePart d) = 32"
  by (simp add: duePart_def split: option.splits)

lemma idPart_head: "idPart i = [] \<or> hd (idPart i) = 32"
  by (simp add: idPart_def asc_def split: option.splits)

lemma append_head: "(u = [] \<or> hd u = (32::nat)) \<Longrightarrow> (v = [] \<or> hd v = 32) \<Longrightarrow> u @ v = [] \<or> hd (u @ v) = 32"
  by (cases u) auto

lemma rest_head:
  "prioPart pr @ duePart d @ idPart i = [] \<or> hd (prioPart pr @ duePart d @ idPart i) = 32"
  by (intro append_head prioPart_head duePart_head idPart_head)

lemma blank_not_tag: "u = [] \<or> hd u = (32::nat) \<Longrightarrow> u = [] \<or> \<not> isTagChar (hd u)"
  by (auto simp: isTagChar_def)

lemma labelPart_Cons: "labelPart (l # ls) = 32 # 35 # l @ labelPart ls"
  by (simp add: labelPart_def)

lemma labelPart_head: "labelPart ls = [] \<or> hd (labelPart ls) = 32"
  by (cases ls) (simp_all add: labelPart_def)

lemma hashtags_labelPart:
  assumes "list_all (validLabel marker) ls" and "v = [] \<or> hd v = 32"
  shows "hashtags (labelPart ls @ v) = ls @ hashtags v"
  using assms
proof (induction ls)
  case Nil
  then show ?case by (simp add: labelPart_def)
next
  case (Cons l ls)
  have l: "list_all isTagChar l" "l \<noteq> []" using Cons.prems(1) by (simp_all add: validLabel_def)
  have nx: "labelPart ls @ v = [] \<or> \<not> isTagChar (hd (labelPart ls @ v))"
    by (rule blank_not_tag) (intro append_head labelPart_head Cons.prems(2))
  have "hashtags (35 # l @ labelPart ls @ v) = l # hashtags (labelPart ls @ v)"
    using hashtags_name [OF l nx] .
  then show ?case using Cons by (simp add: labelPart_Cons)
qed

lemma idPart_hash_free: "okId i \<Longrightarrow> 35 \<notin> set (idPart i)"
  by (cases i) (auto simp: okId_def idPart_def validId_def asc_def list_all_iff isDigit_def)

lemma toLowerCase_tag: "list_all isTagChar l \<Longrightarrow> toLowerCase U l = map asciiLower l"
proof -
  assume "list_all isTagChar l"
  then have "list_all (\<lambda>c. c < 128) l" by (auto simp: list_all_iff isTagChar_def)
  then show ?thesis by (simp add: toLowerCase_def)
qed

lemma read_labels:
  assumes pc: "plainContent U marker c" and vm: "validMarker marker"
    and vl: "list_all (validLabel marker) ls" and od: "okDue d" and oi: "okId i"
  shows "extractLabels U (lead c @ marker @ labelPart ls @ prioPart pr @ duePart d @ idPart i) marker = ls"
proof -
  obtain name where m: "marker = 35 # name" and n: "name \<noteq> []" "list_all isTagChar name"
    using vm by (cases marker) (auto simp: validMarker_def)
  let ?r = "prioPart pr @ duePart d @ idPart i"
  have hc: "hashtags c = []" using pc by (simp add: plainContent_def)
  have r0: "hashtags ?r = []"
    using prioPart_free [of pr] duePart_free [OF od] idPart_hash_free [OF oi]
    by (intro hashtags_free) simp
  have nx: "labelPart ls @ ?r = [] \<or> \<not> isTagChar (hd (labelPart ls @ ?r))"
    by (rule blank_not_tag) (intro append_head labelPart_head rest_head)
  have "hashtags (lead c @ marker @ labelPart ls @ ?r) = hashtags (35 # name @ labelPart ls @ ?r)"
    using hashtags_lead [OF hc] m by simp
  also have "\<dots> = name # hashtags (labelPart ls @ ?r)"
    using hashtags_name [OF n(2) n(1) nx] .
  also have "\<dots> = name # ls"
    using hashtags_labelPart [OF vl rest_head] r0 by simp
  finally have h: "hashtags (lead c @ marker @ labelPart ls @ ?r) = name # ls" .
  have low: "map (toLowerCase U) ls = ls"
    using vl by (induction ls) (simp_all add: validLabel_def toLowerCase_tag)
  have keep: "filter (\<lambda>t. t \<noteq> map asciiLower name) ls = ls"
    using vl m by (induction ls) (simp_all add: validLabel_def)
  show ?thesis
    unfolding extractLabels_def h
    by (simp add: m toLowerCase_tag [OF n(2)] low keep Let_def)
qed

text \<open>The marker is found in the built line.\<close>

lemma search_exists: "m t \<noteq> None \<Longrightarrow> search m (u @ t) \<noteq> None"
proof (induction u)
  case Nil
  then show ?case by (cases t) (auto split: option.splits)
next
  case (Cons x u)
  then show ?case by (auto split: option.splits)
qed

lemma lits_ci_self: "m_items (lits_ci U t) (t @ v) = Some v"
  by (induction t) (simp_all add: lits_ci_def)

lemma read_marker: "rx_test (p_syncTag U marker) (u @ marker @ v)"
  unfolding rx_test_def
  by (rule search_exists) (simp add: p_syncTag_def m_plain_def lits_ci_self)

subsection \<open>The built line under the task pattern\<close>

lemma buildTaskLine_parts:
  "buildTaskLine t marker =
     [] @ 45 # [32] @ 91 # (if isCompleted t then 120 else 32) # 93 # [32] @ content t @ 32 # marker
       @ labelPart (labels t) @ prioPart (priority t) @ duePart (dueDate t) @ idPart (todoistId t)"
  by (cases "priority t")
     (simp_all add: buildTaskLine_def Let_def asc_def labelPart_def duePart_def idPart_def
        split: option.splits)

lemma tail_lead:
  "[32] @ c @ 32 # v = (if c = [] then [32, 32] else [32]) @ lead c @ v"
  by (simp add: lead_def)

lemma no_terminator_parts:
  assumes vm: "validMarker marker" and vl: "list_all (validLabel marker) ls"
    and od: "okDue d" and oi: "okId i"
  shows "list_all (\<lambda>x. \<not> isLineTerminator x) (marker @ labelPart ls @ prioPart pr @ duePart d @ idPart i)"
proof -
  have a: "\<And>u x. tagArea u \<Longrightarrow> x \<in> set u \<Longrightarrow> \<not> isLineTerminator x"
    by (auto simp: tagArea_def list_all_iff isLineTerminator_def isTagChar_def)
  have p: "\<And>x. x \<in> set (prioPart pr) \<Longrightarrow> \<not> isLineTerminator x"
    by (cases pr) (auto simp: isLineTerminator_def glyph_defs)
  have du: "\<And>x. x \<in> set (duePart d) \<Longrightarrow> \<not> isLineTerminator x"
    using duePart_chars [OF od] by (fastforce simp: isLineTerminator_def glyph_defs isDigit_def)
  have id: "\<And>x. x \<in> set (idPart i) \<Longrightarrow> \<not> isLineTerminator x"
    using oi by (cases i)
      (auto simp: okId_def idPart_def validId_def asc_def isDigit_def list_all_iff
         isLineTerminator_def split: if_splits)
  show ?thesis
    using a [OF tagArea_marker [OF vm]] a [OF tagArea_labelPart [OF vl]] p du id
    by (auto simp: list_all_iff)
qed

lemma lead_head:
  assumes n: "trim (collapseSpaces c) = c" and vm: "validMarker marker"
  shows "lead c @ marker @ v \<noteq> [] \<and> \<not> isSpace (hd (lead c @ marker @ v))"
proof (cases c)
  case Nil
  then show ?thesis using vm by (cases marker) (auto simp: lead_def validMarker_def isSpace_def)
next
  case (Cons x xs)
  then show ?thesis using normal_head [OF n] by (simp add: lead_def)
qed

lemma lead_no_terminator:
  "trim (collapseSpaces c) = c \<Longrightarrow> list_all (\<lambda>x. \<not> isLineTerminator x) (lead c)"
  using normal_no_terminator [of c] by (simp add: lead_def isLineTerminator_def)

lemma matchTask_built:
  assumes vm: "validMarker marker" and wf: "wellFormed U marker t"
  shows "matchTask (buildTaskLine t marker) =
     Some ([], (if isCompleted t then 120 else 32),
       lead (content t) @ marker @ labelPart (labels t) @ prioPart (priority t)
         @ duePart (dueDate t) @ idPart (todoistId t))"
proof -
  let ?c = "content t"
  let ?v = "labelPart (labels t) @ prioPart (priority t) @ duePart (dueDate t) @ idPart (todoistId t)"
  let ?w2 = "if ?c = [] then [32, 32] else [32::nat]"
  let ?box = "if isCompleted t then 120 else 32::nat"
  have n: "trim (collapseSpaces ?c) = ?c" using wf by (simp add: wellFormed_def plainContent_def)
  have vl: "list_all (validLabel marker) (labels t)" using wf by (simp add: wellFormed_def)
  have od: "okDue (dueDate t)" using wf by (simp add: wellFormed_def okDue_def)
  have oi: "okId (todoistId t)" using wf by (simp add: wellFormed_def okId_def)
  have sh: "taskShape [] 45 [32] ?box ?w2 (lead ?c @ marker @ ?v)"
    unfolding taskShape_def
    using lead_head [OF n vm, of ?v] lead_no_terminator [OF n] no_terminator_parts [OF vm vl od oi]
    by simp
  have "buildTaskLine t marker = [] @ 45 # [32] @ 91 # ?box # 93 # ?w2 @ (lead ?c @ marker @ ?v)"
    unfolding buildTaskLine_parts using tail_lead [of ?c "marker @ ?v"] by simp
  then show ?thesis using matchTask_shape [OF sh] by simp
qed

subsection \<open>Removing the marker\<close>

lemma removeAll_skip:
  assumes "\<And>u1 u2. u = u1 @ u2 \<Longrightarrow> u2 \<noteq> [] \<Longrightarrow> m_items (lits_ci U t) (u2 @ v) = None"
  shows "removeAll_ci U t (u @ v) = u @ removeAll_ci U t v"
  using assms
proof (induction u)
  case Nil
  then show ?case by simp
next
  case (Cons x u)
  have here: "m_items (lits_ci U t) (x # u @ v) = None" using Cons.prems [of "[]" "x # u"] by simp
  have "\<And>u1 u2. u = u1 @ u2 \<Longrightarrow> u2 \<noteq> [] \<Longrightarrow> m_items (lits_ci U t) (u2 @ v) = None"
  proof -
    fix u1 u2 assume "u = u1 @ u2" and "u2 \<noteq> []"
    then show "m_items (lits_ci U t) (u2 @ v) = None" using Cons.prems [of "x # u1" u2] by simp
  qed
  then have "removeAll_ci U t (u @ v) = u @ removeAll_ci U t v" by (rule Cons.IH)
  then show ?case using here by simp
qed

lemma removeAll_hit: "t \<noteq> [] \<Longrightarrow> removeAll_ci U t (t @ v) = removeAll_ci U t v"
proof -
  assume t: "t \<noteq> []"
  then obtain x t' where xt: "t = x # t'" by (cases t) auto
  have "m_items (lits_ci U t) (x # t' @ v) = Some v" using lits_ci_self [of U t v] xt by simp
  then show ?thesis using xt by simp
qed

lemma canon_hash: "canonicalize U c = canonicalize U 35 \<longleftrightarrow> c = 35"
  by (auto simp: canonicalize_def asciiUpper_def Let_def)

lemma marker_first: "c \<noteq> 35 \<Longrightarrow> m_items (lits_ci U (35 # name)) (c # s) = None"
  by (simp add: lits_ci_def canon_hash)

lemma removeAll_free:
  assumes "35 \<notin> set v"
  shows "removeAll_ci U (35 # name) v = v"
proof -
  have "\<And>u1 u2. v = u1 @ u2 \<Longrightarrow> u2 \<noteq> [] \<Longrightarrow> m_items (lits_ci U (35 # name)) (u2 @ []) = None"
  proof -
    fix u1 u2 assume v: "v = u1 @ u2" and "u2 \<noteq> []"
    then obtain c s where u2: "u2 = c # s" by (cases u2) auto
    then have "c \<noteq> 35" using assms v by auto
    then show "m_items (lits_ci U (35 # name)) (u2 @ []) = None" using u2 by (simp add: marker_first)
  qed
  then have "removeAll_ci U (35 # name) (v @ []) = v @ removeAll_ci U (35 # name) []"
    by (rule removeAll_skip)
  then show ?thesis by simp
qed

lemma marker_canon: "validMarker t \<Longrightarrow> list_all (\<lambda>c. canonicalize U c \<noteq> 32) t"
proof -
  assume "validMarker t"
  then obtain name where t: "t = 35 # name" and n: "list_all isTagChar name"
    by (cases t) (auto simp: validMarker_def)
  have "canonicalize U 35 \<noteq> 32" by (simp add: canonicalize_def asciiUpper_def)
  moreover have "list_all (\<lambda>c. canonicalize U c \<noteq> 32) name"
    using n by (induction name) (simp_all add: tagChar_canon)
  ultimately show ?thesis using t by simp
qed

lemma removeAll_lead:
  assumes pc: "plainContent U marker c" and vm: "validMarker marker"
  shows "removeAll_ci U marker (lead c @ marker @ w) = lead c @ removeAll_ci U marker w"
proof -
  obtain name where m: "marker = 35 # name" using vm by (cases marker) (auto simp: validMarker_def)
  have none: "search (m_plain (lits_ci U marker)) c = None"
    using pc by (simp add: plainContent_def p_syncTag_def)
  have "\<And>u1 u2. lead c = u1 @ u2 \<Longrightarrow> u2 \<noteq> [] \<Longrightarrow> m_items (lits_ci U marker) (u2 @ marker @ w) = None"
  proof -
    fix u1 u2 assume l: "lead c = u1 @ u2" and ne: "u2 \<noteq> []"
    then have cne: "c \<noteq> []" by (auto simp: lead_def)
    then have l2: "c @ [32] = u1 @ u2" using l by (simp add: lead_def)
    obtain s where u2: "u2 = s @ [32]" and c: "c = u1 @ s"
      using l2 ne by (cases u2 rule: rev_cases) auto
    show "m_items (lits_ci U marker) (u2 @ marker @ w) = None"
    proof (cases s)
      case Nil
      then show ?thesis using u2 m by (simp add: marker_first)
    next
      case (Cons a s')
      have "m_plain (lits_ci U marker) s = None" using none c search_None_suffix [of _ u1 s] by simp
      then have "m_plain (lits_ci U marker) (s @ 32 # marker @ w) = None"
        using marker_canon [OF vm] by (rule blocked_lits_ci)
      then show ?thesis using u2 by (simp add: m_plain_None)
    qed
  qed
  then have "removeAll_ci U marker (lead c @ marker @ w) = lead c @ removeAll_ci U marker (marker @ w)"
    by (rule removeAll_skip)
  then show ?thesis using removeAll_hit [of marker U w] m by simp
qed

subsection \<open>The patterns on what is left\<close>

lemma blanks_blankIf [simp]: "blanks (blankIf b)" "blanks []" "blanks [32]"
  by (simp_all add: blanks_def blankIf_def)

lemma blanks_append [simp]: "blanks (a @ b) \<longleftrightarrow> blanks a \<and> blanks b"
  by (simp add: blanks_def)

lemma blanks_Cons [simp]: "blanks (32 # b) \<longleftrightarrow> blanks b"
  by (simp add: blanks_def)

lemma blanks_spaces: "blanks b \<Longrightarrow> list_all isSpace b"
  by (auto simp: blanks_def list_all_iff isSpace_def)

lemma safeTail_blanks: "blanks b \<Longrightarrow> safeTail b"
proof -
  assume "blanks b"
  then have "dropWhile isSpace b = []" using blanks_spaces [of b] by (simp add: list_all_iff)
  then show ?thesis unfolding safeTail_def by (simp only: list.case)
qed

lemma safeTail_Cons: "safeTail (32 # w) = safeTail w"
  by (simp add: safeTail_def)

lemma safeTail_glyph: "\<not> isSpace g \<Longrightarrow> \<not> isDigit g \<Longrightarrow> g \<noteq> 116 \<Longrightarrow> g \<noteq> 45 \<Longrightarrow> safeTail (g # w)"
  by (simp add: safeTail_def)

lemma safeTail_rest:
  assumes "okDue d" and "blanks b"
  shows "safeTail (prioPart pr @ duePart d @ b)"
proof (cases pr)
  case NONE
  show ?thesis
  proof (cases d)
    case None
    then show ?thesis using NONE assms(2) by (simp add: duePart_def safeTail_blanks)
  next
    case (Some x)
    then have "validDate x" using assms(1) by (simp add: okDue_def)
    then show ?thesis using NONE Some
      by (simp add: duePart_Some safeTail_Cons dueDateGlyph_def safeTail_glyph isSpace_def isDigit_def)
  qed
qed (simp_all add: safeTail_Cons glyph_defs safeTail_glyph isSpace_def isDigit_def)

lemma search_blanks:
  assumes "\<And>s. m (32 # s) = None" and "m [] = None" and "blanks b"
  shows "search m b = None"
proof -
  have "skips m b" by (rule skips_blanks) (fact assms(1), fact assms(3))
  then have "search m (b @ []) = shift b (search m [])" by (rule skipsD)
  then show ?thesis using assms(2) by simp
qed

subsection \<open>Cleaning the text of a built line without labels\<close>

lemma blanks_skips:
  assumes "blanks b"
  shows "skips p_dueDate b" "skips p_scheduledDate b" "skips p_startDate b" "skips p_doneDate b"
    "skips p_highPriority b" "skips p_mediumPriority b" "skips p_lowPriority b"
proof -
  have a: "63743 \<notin> set b" using assms by (rule blanks_free) simp
  have b: "8218 \<notin> set b" using assms by (rule blanks_free) simp
  show "skips p_dueDate b" "skips p_scheduledDate b" "skips p_startDate b" "skips p_doneDate b"
    "skips p_highPriority b" "skips p_mediumPriority b" "skips p_lowPriority b"
    using glyph_skips_free [OF a b] by simp_all
qed

lemma blanks_none:
  assumes "blanks b"
  shows "search p_scheduledDate b = None" "search p_startDate b = None" "search p_doneDate b = None"
    "search p_highPriority b = None" "search p_mediumPriority b = None" "search p_lowPriority b = None"
  using blanks_skips [OF assms] by (simp_all add: skips_None)

lemma safeTail_prio: "blanks b \<Longrightarrow> safeTail (prioPart pr @ b)"
  using safeTail_rest [of None b pr] by (simp add: okDue_def duePart_def)

lemma clean_todoistId:
  assumes pc: "plainContent U marker c" and vm: "validMarker marker" and od: "okDue d" and oi: "okId i"
  shows "rx_replace p_todoistId [] (lead c @ marker @ prioPart pr @ duePart d @ idPart i) =
           lead c @ marker @ prioPart pr @ duePart d @ blankIf (i \<noteq> None)"
proof -
  have "list_all (validLabel marker) []" by simp
  from read_todoistId [OF pc vm this od oi, of pr]
  show ?thesis
    by (cases i) (simp_all add: rx_replace_def labelPart_def blankIf_def idPart_def)
qed

lemma clean_marker:
  assumes pc: "plainContent U marker c" and vm: "validMarker marker" and od: "okDue d"
  shows "removeAll_ci U marker (lead c @ marker @ prioPart pr @ duePart d @ blankIf b) =
           lead c @ prioPart pr @ duePart d @ blankIf b"
proof -
  obtain name where m: "marker = 35 # name" using vm by (cases marker) (auto simp: validMarker_def)
  have "35 \<notin> set (prioPart pr @ duePart d @ blankIf b)"
    using prioPart_free [of pr] duePart_free [OF od] by (simp add: blankIf_def)
  then have "removeAll_ci U marker (prioPart pr @ duePart d @ blankIf b) = prioPart pr @ duePart d @ blankIf b"
    unfolding m by (rule removeAll_free)
  then show ?thesis using removeAll_lead [OF pc vm, of "prioPart pr @ duePart d @ blankIf b"] by simp
qed

lemma clean_dueDate:
  assumes pc: "plainContent U marker c" and od: "okDue d" and b: "blanks b"
  shows "rx_replace p_dueDate [] (lead c @ prioPart pr @ duePart d @ b) =
           lead c @ prioPart pr @ blankIf (d \<noteq> None) @ b"
proof -
  have "search p_dueDate (lead c @ prioPart pr @ duePart d @ b) =
          shift (lead c) (search p_dueDate (prioPart pr @ duePart d @ b))"
    using lift_dueDate [OF pc safeTail_rest [OF od b]] .
  also have "search p_dueDate (prioPart pr @ duePart d @ b) =
          shift (prioPart pr) (search p_dueDate (duePart d @ b))"
    using dueDate_skips_prio by (rule skipsD)
  also have "search p_dueDate (duePart d @ b) = (case d of None \<Rightarrow> None | Some x \<Rightarrow> Some ([32], x, b))"
    using od blanks_skips(1) [OF b] by (rule dueDate_at_due)
  finally show ?thesis using od
    by (cases d) (simp_all add: rx_replace_def blankIf_def duePart_def okDue_def validDate_nonempty)
qed

lemma clean_glyph_none:
  assumes pc: "plainContent U marker c" and b: "blanks b"
  shows "rx_replace p_scheduledDate [] (lead c @ prioPart pr @ b) = lead c @ prioPart pr @ b"
    and "rx_replace p_startDate [] (lead c @ prioPart pr @ b) = lead c @ prioPart pr @ b"
    and "rx_replace p_doneDate [] (lead c @ prioPart pr @ b) = lead c @ prioPart pr @ b"
proof -
  have "search p_scheduledDate (lead c @ prioPart pr @ b) = None"
    using lift_scheduledDate [OF pc safeTail_prio [OF b], of pr]
      skipsD [OF scheduledDate_skips_prio, of pr b] blanks_none(1) [OF b] by simp
  then show "rx_replace p_scheduledDate [] (lead c @ prioPart pr @ b) = lead c @ prioPart pr @ b"
    by (simp add: rx_replace_def)
  have "search p_startDate (lead c @ prioPart pr @ b) = None"
    using lift_startDate [OF pc safeTail_prio [OF b], of pr]
      skipsD [OF startDate_skips_prio, of pr b] blanks_none(2) [OF b] by simp
  then show "rx_replace p_startDate [] (lead c @ prioPart pr @ b) = lead c @ prioPart pr @ b"
    by (simp add: rx_replace_def)
  have "search p_doneDate (lead c @ prioPart pr @ b) = None"
    using lift_doneDate [OF pc safeTail_prio [OF b], of pr]
      skipsD [OF doneDate_skips_prio, of pr b] blanks_none(3) [OF b] by simp
  then show "rx_replace p_doneDate [] (lead c @ prioPart pr @ b) = lead c @ prioPart pr @ b"
    by (simp add: rx_replace_def)
qed

lemma clean_highPriority:
  assumes pc: "plainContent U marker c" and b: "blanks b"
  shows "rx_replace p_highPriority [] (lead c @ prioPart pr @ b) =
           (if pr = HIGH then lead c @ prioPart NONE @ 32 # b else lead c @ prioPart pr @ b)"
  using lift_highPriority [OF pc, of "prioPart pr @ b"] highPriority_at_prio [of pr b]
    blanks_none(4) [OF b]
  by (simp add: rx_replace_def)

lemma clean_mediumPriority:
  assumes pc: "plainContent U marker c" and b: "blanks b"
  shows "rx_replace p_mediumPriority [] (lead c @ prioPart pr @ b) =
           (if pr = MEDIUM then lead c @ prioPart NONE @ 32 # b else lead c @ prioPart pr @ b)"
  using lift_mediumPriority [OF pc, of "prioPart pr @ b"] mediumPriority_at_prio [of pr b]
    blanks_none(5) [OF b]
  by (simp add: rx_replace_def)

lemma clean_lowPriority:
  assumes pc: "plainContent U marker c" and b: "blanks b"
  shows "rx_replace p_lowPriority [] (lead c @ prioPart pr @ b) =
           (if pr = LOW then lead c @ prioPart NONE @ 32 # b else lead c @ prioPart pr @ b)"
  using lift_lowPriority [OF pc, of "prioPart pr @ b"] lowPriority_at_prio [of pr b]
    blanks_none(6) [OF b]
  by (simp add: rx_replace_def)

lemma clean_priority:
  assumes pc: "plainContent U marker c" and b: "blanks b"
  shows "rx_replace p_lowPriority [] (rx_replace p_mediumPriority []
           (rx_replace p_highPriority [] (lead c @ prioPart pr @ b))) =
         lead c @ blankIf (pr \<noteq> NONE) @ b"
proof -
  have b2: "blanks (32 # b)" using b by simp
  note hi = clean_highPriority [OF pc] and me = clean_mediumPriority [OF pc]
    and lo = clean_lowPriority [OF pc]
  show ?thesis
  proof (cases pr)
    case NONE
    then show ?thesis using hi [OF b, of NONE] me [OF b, of NONE] lo [OF b, of NONE]
      by (simp add: blankIf_def)
  next
    case LOW
    then show ?thesis using hi [OF b, of LOW] me [OF b, of LOW] lo [OF b, of LOW]
      by (simp add: blankIf_def)
  next
    case MEDIUM
    then show ?thesis using hi [OF b, of MEDIUM] me [OF b, of MEDIUM] lo [OF b2, of NONE]
      by (simp add: blankIf_def)
  next
    case HIGH
    then show ?thesis using hi [OF b, of HIGH] me [OF b2, of NONE] lo [OF b2, of NONE]
      by (simp add: blankIf_def)
  qed
qed

lemma clean_textDueDate:
  assumes pc: "plainContent U marker c" and b: "blanks b"
  shows "rx_replace (p_textDueDate U) [] (lead c @ b) = lead c @ b"
proof -
  have "58 \<notin> set b" using b by (rule blanks_free) simp
  then have "search (p_textDueDate U) b = None" by (rule textDue_no_colon)
  then show ?thesis using lift_textDueDate [OF pc, of b] by (simp add: rx_replace_def)
qed

lemma clean_spaces:
  assumes pc: "plainContent U marker c" and b: "blanks b"
  shows "trim (collapseSpaces (lead c @ b)) = c"
proof -
  have n: "trim (collapseSpaces c) = c" using pc by (simp add: plainContent_def)
  have "list_all isSpace (blankIf (c \<noteq> []) @ b)" using blanks_spaces [OF b] by (simp add: blankIf_def)
  then have "trim (collapseSpaces (c @ blankIf (c \<noteq> []) @ b)) = c" by (rule normal_append_spaces [OF n])
  moreover have "lead c @ b = c @ blankIf (c \<noteq> []) @ b" by (simp add: lead_def blankIf_def)
  ultimately show ?thesis by simp
qed

lemma read_content:
  assumes pc: "plainContent U marker c" and vm: "validMarker marker" and od: "okDue d" and oi: "okId i"
  shows "cleanTaskContent U (lead c @ marker @ prioPart pr @ duePart d @ idPart i) marker = c"
proof -
  let ?b1 = "blankIf (i \<noteq> None)"
  let ?b2 = "blankIf (d \<noteq> None) @ ?b1"
  let ?b3 = "blankIf (pr \<noteq> NONE) @ ?b2"
  have b1: "blanks ?b1" and b2: "blanks ?b2" and b3: "blanks ?b3" by simp_all
  have s1: "rx_replace p_todoistId [] (lead c @ marker @ prioPart pr @ duePart d @ idPart i) =
              lead c @ marker @ prioPart pr @ duePart d @ ?b1"
    by (rule clean_todoistId [OF pc vm od oi])
  have s2: "removeAll_ci U marker (lead c @ marker @ prioPart pr @ duePart d @ ?b1) =
              lead c @ prioPart pr @ duePart d @ ?b1"
    by (rule clean_marker [OF pc vm od])
  have s3: "rx_replace p_dueDate [] (lead c @ prioPart pr @ duePart d @ ?b1) = lead c @ prioPart pr @ ?b2"
    by (rule clean_dueDate [OF pc od b1])
  note s456 = clean_glyph_none [OF pc b2, of pr]
  have s789: "rx_replace p_lowPriority [] (rx_replace p_mediumPriority []
           (rx_replace p_highPriority [] (lead c @ prioPart pr @ ?b2))) = lead c @ ?b3"
    by (rule clean_priority [OF pc b2])
  have s10: "rx_replace (p_textDueDate U) [] (lead c @ ?b3) = lead c @ ?b3"
    by (rule clean_textDueDate [OF pc b3])
  have s11: "trim (collapseSpaces (lead c @ ?b3)) = c"
    by (rule clean_spaces [OF pc b3])
  show ?thesis
    unfolding cleanTaskContent_def Let_def s1 s2 s3 s456 s789 s10 s11 ..
qed

section \<open>Lemmas on the engine\<close>

lemma getAllObsidianTasks_flag [simp]:
  "getAllObsidianTasks U (e\<lparr>isSyncing := b\<rparr>) w = getAllObsidianTasks U e w"
  by (simp add: getAllObsidianTasks_def cong: sum.case_cong)

text \<open>\<open>performSync\<close> as a function of the engine and the world alone.\<close>

lemma performSync_body:
  "performSync U G = (\<lambda>(e, w).
     if isSyncing e then
       (emptyResult\<lparr>errors := [asc ''Sync already in progress'']\<rparr>, e, w)
     else if \<not> apiReady w then
       (emptyResult\<lparr>errors := [asc ''Todoist API not configured'']\<rparr>, e, w)
     else
       (let e1 = e\<lparr>isSyncing := True\<rparr>;
            result = emptyResult
        in
        (case getTasks G w of
           (Inl err, w1) \<Rightarrow>
             (result\<lparr>errors := errors result @ [asc ''Failed to fetch Todoist tasks: '' @ err]\<rparr>,
              e1\<lparr>isSyncing := False\<rparr>, w1)
         | (Inr todoistTasks, w1) \<Rightarrow>
             (let remoteMap = todoistTaskMap todoistTasks in
              (case getAllObsidianTasks U e1 w1 of
                 Inl err \<Rightarrow>
                   (result\<lparr>errors := errors result @ [asc ''Sync failed: '' @ err]\<rparr>,
                    e1\<lparr>isSyncing := False\<rparr>, w1)
               | Inr obsidianTasks \<Rightarrow>
                   (let linked = syncedObsidianTasks obsidianTasks;
                        unlinked = newObsidianTasks obsidianTasks
                    in
                    (case foldl (createStep G) (result, e1, w1) unlinked of
                       (result2, e2, w2) \<Rightarrow>
                         (case foldl (syncStep G remoteMap) (result2, e2, w2) linked of
                            (result3, e3, w3) \<Rightarrow>
                              (let e4 = foldl (orphanStep linked) e3 (map fst remoteMap) in
                               (case dateNow w3 of
                                  (now, w4) \<Rightarrow>
                                    (result3,
                                     e4\<lparr>syncState := (syncState e4)\<lparr>lastFullSync := now\<rparr>,
                                        isSyncing := False\<rparr>,
                                     w4)))))))))))"
  by (auto simp add: performSync_def performSyncRun_def fun_eq_iff Let_def split: prod.splits sum.splits)

lemma performSync_pass:
  assumes "\<not> isSyncing e" and "apiReady w"
    and "fetchAllTasks G (remote w) = (Inr ts, g)"
    and "getAllObsidianTasks U e (w\<lparr>remote := g\<rparr>) = Inr obs"
  shows "performSync U G (e, w) =
     (let st2 = foldl (createStep G) (emptyResult, e\<lparr>isSyncing := True\<rparr>, w\<lparr>remote := g\<rparr>) (newObsidianTasks obs);
          st3 = foldl (syncStep G (todoistTaskMap ts)) st2 (syncedObsidianTasks obs);
          e4 = foldl (orphanStep (syncedObsidianTasks obs)) (fst (snd st3)) (map fst (todoistTaskMap ts))
      in (fst st3,
          e4\<lparr>syncState := (syncState e4)\<lparr>lastFullSync := fst (dateNow (snd (snd st3)))\<rparr>, isSyncing := False\<rparr>,
          snd (dateNow (snd (snd st3)))))"
  using assms
  by (simp add: performSync_body getTasks_def callApi_def Let_def case_prod_beta)

lemma deleteTask_tasks [simp]: "tasks (syncState (deleteTask k e)) = (tasks (syncState e))(k := None)"
  by (simp add: deleteTask_def)

lemma orphanStep_keeps_none:
  "tasks (syncState e) k = None \<Longrightarrow> tasks (syncState (orphanStep linked e j)) k = None"
  by (simp add: orphanStep_def)

lemma orphan_fold_keeps_none:
  "tasks (syncState e) k = None \<Longrightarrow> tasks (syncState (foldl (orphanStep linked) e ks)) k = None"
  by (induction ks arbitrary: e) (simp_all add: orphanStep_keeps_none)

lemma orphan_fold_deletes:
  "k \<in> set ks \<Longrightarrow> map_of linked k = None \<Longrightarrow>
   tasks (syncState (foldl (orphanStep linked) e ks)) k = None"
proof (induction ks arbitrary: e)
  case Nil
  then show ?case by simp
next
  case (Cons j ks)
  show ?case
  proof (cases "j = k")
    case True
    have "tasks (syncState (orphanStep linked e k)) k = None"
      using Cons.prems(2) by (simp add: orphanStep_def)
    then show ?thesis using True by (simp add: orphan_fold_keeps_none)
  next
    case False
    then have "k \<in> set ks" using Cons.prems(1) by simp
    then show ?thesis using Cons.IH Cons.prems(2) by simp
  qed
qed

lemma orphanStep_other:
  "map_of linked k \<noteq> None \<Longrightarrow> tasks (syncState (orphanStep linked e j)) k = tasks (syncState e) k"
  by (auto simp add: orphanStep_def)

lemma orphan_fold_absent:
  "k \<notin> set ks \<Longrightarrow> tasks (syncState (foldl (orphanStep linked) e ks)) k = tasks (syncState e) k"
  by (induction ks arbitrary: e) (auto simp add: orphanStep_def)

lemma mapSet_keys: "fst ` set (mapSet k v m) = insert k (fst ` set m)"
proof (induction m)
  case Nil
  show ?case by simp
next
  case (Cons a m)
  obtain k' v' where a: "a = (k', v')" by (cases a)
  show ?case using Cons.IH by (cases "k' = k") (auto simp: a)
qed

lemma todoistTaskMap_keys_aux:
  "fst ` set (foldl (\<lambda>m task. mapSet (task_id task) task m) m0 ts) = fst ` set m0 \<union> task_id ` set ts"
  by (induction ts arbitrary: m0) (simp_all add: mapSet_keys)

lemma todoistTaskMap_keys: "set (map fst (todoistTaskMap ts)) = task_id ` set ts"
  using todoistTaskMap_keys_aux [of "[]" ts] by (simp add: todoistTaskMap_def)

lemma updateObsidianTaskLine_ok:
  assumes "files w (filePath t) = Some text" and "readError w (filePath t) = None"
    and "modifyError w (filePath t) = None" and "lineNumber t < length (splitOn 10 text)"
  shows "updateObsidianTaskLine t f w =
     (Inr (), w\<lparr>files := (files w)(filePath t \<mapsto>
        joinWith [10] ((splitOn 10 text)[lineNumber t := f (splitOn 10 text ! lineNumber t)]))\<rparr>)"
  using assms by (simp add: updateObsidianTaskLine_def vault_read_def vault_modify_def Let_def)

lemma updateObsidianTaskLine_world:
  "updateObsidianTaskLine t f w = (Inl err, w') \<Longrightarrow> w' = w"
  by (auto simp add: updateObsidianTaskLine_def vault_read_def vault_modify_def Let_def
      split: option.splits sum.splits if_splits)

lemma syncStep_remote_absent:
  assumes "map_of remoteMap tid = None"
    and "files w (filePath ot) = Some text" and "readError w (filePath ot) = None"
    and "modifyError w (filePath ot) = None" and "lineNumber ot < length (splitOn 10 text)"
  shows "syncStep G remoteMap (r, e, w) (tid, ot) =
     (r\<lparr>completed := completed r + 1\<rparr>, deleteTask tid e,
      w\<lparr>files := (files w)(filePath ot \<mapsto>
        joinWith [10] ((splitOn 10 text)[lineNumber ot :=
           updateTaskCompletion (splitOn 10 text ! lineNumber ot) True]))\<rparr>)"
  using assms by (simp add: syncStep_def markObsidianTaskCompleted_def updateObsidianTaskLine_ok)

lemma syncStep_remote_absent_failure:
  assumes "map_of remoteMap tid = None"
    and "markObsidianTaskCompleted ot w = (Inl err, w')"
  shows "syncStep G remoteMap (r, e, w) (tid, ot) =
     (r\<lparr>errors := errors r @ [asc ''Failed to mark task completed: '' @ content ot]\<rparr>, e, w)"
  using assms updateObsidianTaskLine_world [of ot _ w err w']
  by (simp add: syncStep_def markObsidianTaskCompleted_def)

lemma syncExistingTask_state:
  assumes "syncExistingTask G ot tt (e, w) = (res, e', w')"
  shows "syncState e' = syncState e \<or>
         (\<exists>r. syncState e' = (syncState e)\<lparr>tasks := (tasks (syncState e))(task_id tt \<mapsto> r)\<rparr>
              \<and> obsidianCompleted r = todoistCompleted r)"
  using assms
  by (auto simp add: syncExistingTask_def updateSyncStateTask_def dateNow_def Let_def
      split: if_splits prod.splits sum.splits)

section \<open>The engine of a pass in flight\<close>

lemma stepStates_inv:
  assumes "P s" and "\<And>t x. P t \<Longrightarrow> P (f t x)"
  shows "list_all P (stepStates f s xs)"
  using assms(1)
proof (induction xs arbitrary: s)
  case Nil
  then show ?case by simp
next
  case (Cons x xs)
  then show ?case using assms(2) by simp
qed

lemma foldl_inv:
  assumes "P s" and "\<And>t x. P t \<Longrightarrow> P (f t x)"
  shows "P (foldl f s xs)"
  using assms(1)
proof (induction xs arbitrary: s)
  case Nil
  then show ?case by simp
next
  case (Cons x xs)
  then show ?case using assms(2) by simp
qed

lemma stepStates_last: "last (stepStates f s xs) = foldl f s xs"
proof (induction xs arbitrary: s)
  case Nil
  show ?case by simp
next
  case (Cons x xs)
  have "stepStates f (f s x) xs \<noteq> []" by (cases xs) simp_all
  then show ?case using Cons by simp
qed

text \<open>No step of a pass assigns to the in-progress flag.\<close>

lemma updateSyncStateTask_flag:
  "isSyncing (fst (updateSyncStateTask tid ot b (e, w))) = isSyncing e"
  by (simp add: updateSyncStateTask_def split: prod.splits)

lemma createTodoistTask_flag:
  "isSyncing (fst (snd (createTodoistTask G t (e, w)))) = isSyncing e"
  by (simp add: createTodoistTask_def Let_def split: prod.splits sum.splits)

lemma createStep_flag: "isSyncing (engineOf (createStep G st t)) = isSyncing (engineOf st)"
proof -
  obtain r e w where st: "st = (r, e, w)" by (cases st) auto
  obtain res e' w' where c: "createTodoistTask G t (e, w) = (res, e', w')"
    by (cases "createTodoistTask G t (e, w)") auto
  have "isSyncing e' = isSyncing e" using createTodoistTask_flag [of G t e w] c by simp
  then show ?thesis using st c by (cases res) (simp_all add: createStep_def engineOf_def)
qed

lemma syncExistingTask_flag:
  assumes "syncExistingTask G ot tt (e, w) = (res, e', w')"
  shows "isSyncing e' = isSyncing e"
  using assms
  by (auto simp add: syncExistingTask_def updateSyncStateTask_def dateNow_def Let_def
      split: if_splits prod.splits sum.splits)

lemma syncStep_flag:
  "isSyncing (engineOf (syncStep G remoteMap st x)) = isSyncing (engineOf st)"
proof -
  obtain r e w where st: "st = (r, e, w)" by (cases st) auto
  obtain tid ot where x: "x = (tid, ot)" by (cases x)
  show ?thesis
  proof (cases "map_of remoteMap tid")
    case None
    then show ?thesis using st x
      by (simp add: syncStep_def engineOf_def deleteTask_def split: prod.splits sum.splits)
  next
    case (Some tt)
    obtain res e' w' where c: "syncExistingTask G ot tt (e, w) = (res, e', w')"
      by (cases "syncExistingTask G ot tt (e, w)") auto
    have "isSyncing e' = isSyncing e" using c by (rule syncExistingTask_flag)
    then show ?thesis using st x Some c
      by (simp add: syncStep_def engineOf_def split: sum.splits SyncOutcome.splits)
  qed
qed

lemma createStates_flag:
  "isSyncing (engineOf st) \<Longrightarrow>
   list_all (\<lambda>t. isSyncing (engineOf t)) (stepStates (createStep G) st xs)"
  by (rule stepStates_inv) (simp_all add: createStep_flag)

lemma syncStates_flag:
  "isSyncing (engineOf st) \<Longrightarrow>
   list_all (\<lambda>t. isSyncing (engineOf t)) (stepStates (syncStep G m) st xs)"
  by (rule stepStates_inv) (simp_all add: syncStep_flag)

lemma createFold_flag:
  "isSyncing (engineOf st) \<Longrightarrow> isSyncing (engineOf (foldl (createStep G) st xs))"
  by (rule foldl_inv) (simp_all add: createStep_flag)

lemma inFlight_flag:
  assumes "e' \<in> set (inFlight U G (e, w))"
  shows "isSyncing e'"
proof (cases "isSyncing e \<or> \<not> apiReady w")
  case True
  then show ?thesis using assms
    by (cases "isSyncing e") (simp_all add: inFlight_def performSyncRun_def)
next
  case False
  let ?e1 = "e\<lparr>isSyncing := True\<rparr>"
  obtain f w1 where g: "getTasks G w = (f, w1)" by (cases "getTasks G w")
  show ?thesis
  proof (cases f)
    case (Inl err)
    then show ?thesis using assms False g by (simp add: inFlight_def performSyncRun_def)
  next
    case (Inr ts)
    show ?thesis
    proof (cases "getAllObsidianTasks U ?e1 w1")
      case (Inl err)
      then show ?thesis using assms False g Inr by (simp add: inFlight_def performSyncRun_def)
    next
      case (Inr obs)
      let ?s1 = "(emptyResult, ?e1, w1)"
      let ?s2 = "foldl (createStep G) ?s1 (newObsidianTasks obs)"
      have f1: "isSyncing (engineOf ?s1)" by (simp add: engineOf_def)
      have f2: "isSyncing (engineOf ?s2)" using f1 by (rule createFold_flag)
      have a: "list_all (\<lambda>t. isSyncing (engineOf t))
                 (stepStates (createStep G) ?s1 (newObsidianTasks obs))"
        using f1 by (rule createStates_flag)
      have b: "list_all (\<lambda>t. isSyncing (engineOf t))
                 (stepStates (syncStep G (todoistTaskMap ts)) ?s2 (syncedObsidianTasks obs))"
        using f2 by (rule syncStates_flag)
      have "inFlight U G (e, w) = ?e1 # map engineOf
               (stepStates (createStep G) ?s1 (newObsidianTasks obs)
                @ stepStates (syncStep G (todoistTaskMap ts)) ?s2 (syncedObsidianTasks obs))"
        using False g \<open>f = Inr ts\<close> Inr
        by (simp add: inFlight_def performSyncRun_def Let_def split: prod.splits)
      then show ?thesis using assms a b by (auto simp: list_all_iff)
    qed
  qed
qed

lemma inFlight_first:
  assumes "\<not> isSyncing e" and "apiReady w"
  shows "e\<lparr>isSyncing := True\<rparr> \<in> set (inFlight U G (e, w))"
  using assms
  by (simp add: inFlight_def performSyncRun_def Let_def split: prod.splits sum.splits)

section \<open>The in-progress guard and the fetch\<close>

text \<open>
  C4. Let an invocation of \<open>performSync\<close> be in flight: it started from any engine \<open>e\<close>
  and world \<open>w\<close>, and \<open>e'\<close> is the engine at one of its \<^verbatim>\<open>await\<close>s. An invocation that
  starts there, whatever the world \<open>w'\<close> is at that moment, returns at once: all four
  counters are zero, \<open>errors\<close> has exactly one entry, neither the engine (sync state,
  conflict queue, flag) nor the world (vault, remote service, clock) has changed, so
  nothing was fetched, scanned or mutated, and the invocation reaches no \<^verbatim>\<open>await\<close> of its
  own. The flag that the guard reads is the one that the pass in flight has set
  (\<open>inFlight_flag\<close>), and every pass that gets past the two checks is in flight with the
  engine \<open>e\<lparr>isSyncing := True\<rparr>\<close> (\<open>inFlight_first\<close>).
\<close>

theorem performSync_rejects_reentry:
  assumes "e' \<in> set (inFlight U G (e, w))"
  shows "performSync U G (e', w') =
           (\<lparr>created = 0, updated = 0, completed = 0, conflicts = 0,
             errors = [asc ''Sync already in progress'']\<rparr>, e', w')
         \<and> inFlight U G (e', w') = []"
  using inFlight_flag [OF assms]
  by (simp add: performSync_def inFlight_def performSyncRun_def emptyResult_def)

theorem performSync_rejects_reentry_witness:
  "engine0\<lparr>isSyncing := True\<rparr> \<in> set (inFlight U0 (stubApi (Inr []) (Inl [])) (engine0, world0))
   \<and> performSync U0 (stubApi (Inr []) (Inl [])) (engine0\<lparr>isSyncing := True\<rparr>, world0\<lparr>remote := 1\<rparr>) =
     (\<lparr>created = 0, updated = 0, completed = 0, conflicts = 0,
       errors = [asc ''Sync already in progress'']\<rparr>,
      engine0\<lparr>isSyncing := True\<rparr>, world0\<lparr>remote := 1\<rparr>)
   \<and> inFlight U0 (stubApi (Inr []) (Inl [])) (engine0\<lparr>isSyncing := True\<rparr>, world0\<lparr>remote := 1\<rparr>) = []"
proof -
  have h: "engine0\<lparr>isSyncing := True\<rparr> \<in> set (inFlight U0 (stubApi (Inr []) (Inl [])) (engine0, world0))"
    by (simp add: inFlight_def performSyncRun_def engine0_def world0_def getTasks_def callApi_def
        stubApi_def Let_def split: prod.splits sum.splits)
  from performSync_rejects_reentry [OF h, of "world0\<lparr>remote := 1\<rparr>"] h show ?thesis by simp
qed

text \<open>
  C2. When the fetch of the remote tasks fails in a pass that got past the two checks,
  the pass ends there: the counters are zero, \<open>errors\<close> holds the one message of the fetch
  failure, and the engine is as before the call: no record of the sync state added,
  changed or deleted, \<open>lastFullSync\<close> as it was, the flag clear again. Of the world only
  the remote service's own state is what the failed call left.
\<close>

theorem performSync_fetch_failure_aborts:
  assumes "\<not> isSyncing e" and "apiReady w"
    and "fetchAllTasks G (remote w) = (Inl err, g)"
  shows "performSync U G (e, w) =
           (\<lparr>created = 0, updated = 0, completed = 0, conflicts = 0,
             errors = [asc ''Failed to fetch Todoist tasks: '' @ err]\<rparr>, e, w\<lparr>remote := g\<rparr>)"
  using assms by (simp add: performSync_body emptyResult_def getTasks_def callApi_def)

theorem performSync_fetch_failure_aborts_witness:
  "\<not> isSyncing engine0 \<and> apiReady world0 \<and>
   fetchAllTasks (stubApi (Inl (asc ''Error: offline'')) (Inl [])) (remote world0)
     = (Inl (asc ''Error: offline''), 1) \<and>
   performSync U0 (stubApi (Inl (asc ''Error: offline'')) (Inl [])) (engine0, world0) =
     (\<lparr>created = 0, updated = 0, completed = 0, conflicts = 0,
       errors = [asc ''Failed to fetch Todoist tasks: '' @ asc ''Error: offline'']\<rparr>,
      engine0, world0\<lparr>remote := 1\<rparr>)"
  using performSync_fetch_failure_aborts [of engine0 world0 "stubApi (Inl (asc ''Error: offline'')) (Inl [])"
      "asc ''Error: offline''" 1 U0]
  by (simp add: engine0_def world0_def stubApi_def)

text \<open>
  C9, as the claim states it, fails for the invocation that the guard rejects: it
  resolves with the flag still set, since the flag belongs to the pass in flight.
\<close>

theorem performSync_rejected_keeps_flag:
  "errors (fst (performSync U0 (stubApi (Inr []) (Inl [])) (engine0\<lparr>isSyncing := True\<rparr>, world0)))
     = [asc ''Sync already in progress'']
   \<and> isSyncing (fst (snd (performSync U0 (stubApi (Inr []) (Inl []))
         (engine0\<lparr>isSyncing := True\<rparr>, world0))))"
  by (simp add: performSync_body emptyResult_def)

text \<open>
  C9, amended. An invocation of \<open>performSync\<close> that got past the in-progress guard
  resolves with the flag clear, whichever way it ends: the not-configured return, the
  fetch failure, an exception that reaches the outer handler, or the end of the pass.
  So an invocation that starts after it has resolved is not rejected by the guard.
\<close>

theorem performSync_clears_flag:
  assumes "\<not> isSyncing e"
  shows "\<not> isSyncing (fst (snd (performSync U G (e, w))))"
  using assms
  by (simp add: performSync_body Let_def case_prod_beta split: sum.splits)

theorem performSync_clears_flag_witness:
  "\<not> isSyncing engine0 \<and>
   \<not> isSyncing (fst (snd (performSync U0 (stubApi (Inr []) (Inl [])) (engine0, world0))))"
proof -
  have h: "\<not> isSyncing engine0" by (simp add: engine0_def)
  from performSync_clears_flag [OF h] show ?thesis using h by blast
qed

section \<open>Orphan cleanup\<close>

text \<open>
  C3, as the claim states it, fails: a record whose id is neither linked nor among the
  fetched tasks is not visited by the last loop, which runs over the fetched tasks. Here
  the sync state holds a record for id 7, the vault has no file and the fetch returns no
  task; after the pass the record is still there.
\<close>

theorem orphan_absent_from_remote_is_kept:
  "fetchAllTasks (stubApi (Inr []) (Inl [])) (remote world0) = (Inr [], 1)
   \<and> getAllObsidianTasks U0 engine7 (world0\<lparr>remote := 1\<rparr>) = Inr []
   \<and> tasks (syncState engine7) (asc ''7'') = Some record7
   \<and> tasks (syncState (fst (snd (performSync U0 (stubApi (Inr []) (Inl [])) (engine7, world0)))))
        (asc ''7'') = Some record7"
  by (simp add: performSync_body getTasks_def callApi_def getAllObsidianTasks_def stubApi_def
      world0_def engine7_def engine0_def emptyResult_def syncedObsidianTasks_def
      newObsidianTasks_def todoistTaskMap_def dateNow_def)

text \<open>
  C3, amended. After a pass that reaches the orphan cleanup (the guard passed, the fetch
  and the scan did not throw), every id that is among the fetched remote tasks and is not
  in the pass's map of linked tasks has no record in the sync state.
\<close>

theorem orphan_cleanup_deletes:
  assumes "\<not> isSyncing e" and "apiReady w"
    and "fetchAllTasks G (remote w) = (Inr ts, g)"
    and "getAllObsidianTasks U e (w\<lparr>remote := g\<rparr>) = Inr obs"
    and "k \<in> task_id ` set ts"
    and "map_of (syncedObsidianTasks obs) k = None"
  shows "tasks (syncState (fst (snd (performSync U G (e, w))))) k = None"
proof -
  have "k \<in> set (map fst (todoistTaskMap ts))"
    using assms(5) by (simp only: todoistTaskMap_keys)
  then show ?thesis
    using assms(1-4,6) by (simp add: performSync_pass Let_def orphan_fold_deletes)
qed

theorem orphan_cleanup_deletes_witness:
  "\<not> isSyncing engine7 \<and> apiReady world0
   \<and> fetchAllTasks (stubApi (Inr [task7]) (Inl [])) (remote world0) = (Inr [task7], 1)
   \<and> getAllObsidianTasks U0 engine7 (world0\<lparr>remote := 1\<rparr>) = Inr []
   \<and> asc ''7'' \<in> task_id ` set [task7]
   \<and> map_of (syncedObsidianTasks []) (asc ''7'') = None
   \<and> tasks (syncState engine7) (asc ''7'') = Some record7
   \<and> tasks (syncState (fst (snd (performSync U0 (stubApi (Inr [task7]) (Inl [])) (engine7, world0)))))
        (asc ''7'') = None"
proof -
  have h1: "\<not> isSyncing engine7" by (simp add: engine7_def engine0_def)
  have h2: "apiReady world0" by (simp add: world0_def)
  have h3: "fetchAllTasks (stubApi (Inr [task7]) (Inl [])) (remote world0) = (Inr [task7], 1)"
    by (simp add: stubApi_def world0_def)
  have h4: "getAllObsidianTasks U0 engine7 (world0\<lparr>remote := 1\<rparr>) = Inr []"
    by (simp add: getAllObsidianTasks_def world0_def)
  have h5: "asc ''7'' \<in> task_id ` set [task7]" by (simp add: task7_def)
  have h6: "map_of (syncedObsidianTasks []) (asc ''7'') = None"
    by (simp add: syncedObsidianTasks_def)
  have h7: "tasks (syncState engine7) (asc ''7'') = Some record7" by (simp add: engine7_def)
  from orphan_cleanup_deletes [OF h1 h2 h3 h4 h5 h6]
  show ?thesis using h1 h2 h3 h4 h5 h6 h7 by blast
qed

section \<open>Linked tasks\<close>

text \<open>
  C5. The step of loop 2 for a linked task whose remote task exists, with equal
  completion flags and a difference in content, priority or due date, under the
  \<^verbatim>\<open>ask-user\<close> policy: the world is unchanged (no line of the vault rewritten, no call to
  the remote service), the sync state is unchanged (the task's record with it), exactly
  one conflict is appended to the pending conflicts, \<open>conflicts\<close> grows by one and the
  other counters and \<open>errors\<close> stay.
\<close>

theorem ask_user_conflict_is_queued:
  assumes "map_of remoteMap tid = Some tt"
    and "isCompleted ot = task_isCompleted tt"
    and "content ot \<noteq> task_content tt \<or> priority ot \<noteq> task_priority tt
         \<or> dueDate ot \<noteq> parseDueDate tt"
    and "conflictResolution (settings e) = AskUser"
  shows "syncStep G remoteMap (r, e, w) (tid, ot) =
     (r\<lparr>conflicts := conflicts r + 1\<rparr>,
      e\<lparr>pendingConflicts := pendingConflicts e @ [\<lparr>
          c_todoistId = task_id tt, c_filePath = filePath ot, c_lineNumber = lineNumber ot,
          obsidianContent = content ot, todoistContent = task_content tt,
          c_obsidianCompleted = isCompleted ot, c_todoistCompleted = task_isCompleted tt\<rparr>]\<rparr>,
      w)"
  using assms
  by (auto simp add: syncStep_def syncExistingTask_def Let_def)

theorem ask_user_conflict_is_queued_witness:
  "map_of [(asc ''7'', task7)] (asc ''7'') = Some task7
   \<and> isCompleted localTask7 = task_isCompleted task7
   \<and> content localTask7 \<noteq> task_content task7
   \<and> conflictResolution (settings engineAsk) = AskUser
   \<and> syncStep (stubApi (Inr [task7]) (Inl [])) [(asc ''7'', task7)]
         (emptyResult, engineAsk, worldWith line7) (asc ''7'', localTask7) =
       (emptyResult\<lparr>conflicts := conflicts emptyResult + 1\<rparr>,
        engineAsk\<lparr>pendingConflicts := pendingConflicts engineAsk @ [\<lparr>
          c_todoistId = task_id task7, c_filePath = filePath localTask7,
          c_lineNumber = lineNumber localTask7,
          obsidianContent = content localTask7, todoistContent = task_content task7,
          c_obsidianCompleted = isCompleted localTask7,
          c_todoistCompleted = task_isCompleted task7\<rparr>]\<rparr>,
        worldWith line7)"
proof -
  have h1: "map_of [(asc ''7'', task7)] (asc ''7'') = Some task7" by simp
  have h2: "isCompleted localTask7 = task_isCompleted task7"
    by (simp add: localTask7_def task7_def)
  have h3': "content localTask7 \<noteq> task_content task7"
    by (simp add: localTask7_def task7_def asc_def)
  then have h3: "content localTask7 \<noteq> task_content task7 \<or> priority localTask7 \<noteq> task_priority task7
        \<or> dueDate localTask7 \<noteq> parseDueDate task7"
    by simp
  have h4: "conflictResolution (settings engineAsk) = AskUser"
    by (simp add: engineAsk_def)
  from ask_user_conflict_is_queued [OF h1 h2 h3 h4]
  show ?thesis using h1 h2 h3' h4 by blast
qed

text \<open>
  C6, as the claim states it, fails when the rewrite of the line fails. Here the one
  line of the one file carries id 7, the fetch returns no task, and the vault refuses
  every write: after the pass the line is as before, the record of id 7 is still in the
  sync state and \<open>completed\<close> is 0; the failure is in \<open>errors\<close>.
\<close>

theorem remote_absent_rewrite_failure:
  "getAllObsidianTasks U0 engine7 (readOnly (worldWith line7)) = Inr [localTask7]
   \<and> completed (fst (performSync U0 (stubApi (Inr []) (Inl [])) (engine7, readOnly (worldWith line7)))) = 0
   \<and> errors (fst (performSync U0 (stubApi (Inr []) (Inl [])) (engine7, readOnly (worldWith line7))))
        = [asc ''Failed to mark task completed: a'']
   \<and> tasks (syncState (fst (snd (performSync U0 (stubApi (Inr []) (Inl []))
          (engine7, readOnly (worldWith line7)))))) (asc ''7'') = Some record7
   \<and> files (snd (snd (performSync U0 (stubApi (Inr []) (Inl []))
          (engine7, readOnly (worldWith line7))))) path1 = Some line7"
  by code_simp

text \<open>
  A second way in which the claim as stated fails: of two lines that carry the same id
  only the last one is in the map of linked tasks, and only its checkbox is rewritten.
\<close>

lemma remote_absent_duplicate_id:
  "files (snd (snd (performSync U0 (stubApi (Inr []) (Inl []))
          (engine7, worldWith (line7 @ [10] @ line7))))) path1
     = Some (line7 @ [10] @ asc ''- [x] a #todoist <!-- todoist-id:7 -->'')
   \<and> completed (fst (performSync U0 (stubApi (Inr []) (Inl []))
          (engine7, worldWith (line7 @ [10] @ line7)))) = 1"
  by code_simp

text \<open>
  C6, amended. The step of loop 2 for an entry of the map of linked tasks (for an id on
  several lines: the last line scanned) whose id is not among the fetched tasks, when
  the rewrite of the line succeeds (the file exists, can be read and written and has
  the line): \<open>completed\<close> grows by one, the record of the id is deleted, and the file is
  written back with that one line replaced by \<open>updateTaskCompletion line True\<close>; if the
  line was a checkbox line, it is one afterwards, with the same indentation and a
  completed checkbox. (When the rewrite fails, \<open>syncStep_remote_absent_failure\<close>: the
  failure is appended to \<open>errors\<close> and nothing else changes.)
\<close>

theorem remote_absent_marks_completed:
  assumes absent: "map_of remoteMap tid = None"
    and present: "files w (filePath ot) = Some body"
    and readable: "readError w (filePath ot) = None"
    and writable: "modifyError w (filePath ot) = None"
    and inRange: "lineNumber ot < length (splitOn 10 body)"
  shows "\<exists>body'. syncStep G remoteMap (r, e, w) (tid, ot) =
            (r\<lparr>completed := completed r + 1\<rparr>,
             e\<lparr>syncState := (syncState e)\<lparr>tasks := (tasks (syncState e))(tid := None)\<rparr>\<rparr>,
             w\<lparr>files := (files w)(filePath ot \<mapsto> body')\<rparr>)
          \<and> splitOn 10 body' = (splitOn 10 body)[lineNumber ot :=
                 updateTaskCompletion (splitOn 10 body ! lineNumber ot) True]
          \<and> (\<forall>ind box rest. matchTask (splitOn 10 body ! lineNumber ot) = Some (ind, box, rest) \<longrightarrow>
                (\<exists>box' rest'. matchTask (updateTaskCompletion (splitOn 10 body ! lineNumber ot) True)
                     = Some (ind, box', rest') \<and> asciiLower box' = 120))"
proof -
  let ?ls = "splitOn 10 body"
  let ?new = "updateTaskCompletion (?ls ! lineNumber ot) True"
  let ?body' = "joinWith [10] (?ls[lineNumber ot := ?new])"
  have step: "syncStep G remoteMap (r, e, w) (tid, ot) =
            (r\<lparr>completed := completed r + 1\<rparr>,
             e\<lparr>syncState := (syncState e)\<lparr>tasks := (tasks (syncState e))(tid := None)\<rparr>\<rparr>,
             w\<lparr>files := (files w)(filePath ot \<mapsto> ?body')\<rparr>)"
    using syncStep_remote_absent [OF absent present readable writable inRange]
    by (simp add: deleteTask_def)
  have old: "10 \<notin> set (?ls ! lineNumber ot)"
    using inRange splitOn_no_sep [of "?ls ! lineNumber ot" 10 body] by simp
  have "\<And>l. l \<in> set (?ls[lineNumber ot := ?new]) \<Longrightarrow> 10 \<notin> set l"
  proof -
    fix l assume "l \<in> set (?ls[lineNumber ot := ?new])"
    then have "l = ?new \<or> l \<in> set ?ls" using set_update_subset_insert by fastforce
    then show "10 \<notin> set l"
      using updateTaskCompletion_no_newline [OF old] splitOn_no_sep [of l 10 body] by auto
  qed
  then have reread: "splitOn 10 ?body' = ?ls[lineNumber ot := ?new]"
    by (intro splitOn_joinWith) simp_all
  have box: "\<forall>ind box rest. matchTask (?ls ! lineNumber ot) = Some (ind, box, rest) \<longrightarrow>
                (\<exists>box' rest'. matchTask ?new = Some (ind, box', rest') \<and> asciiLower box' = 120)"
  proof (intro allI impI)
    fix ind box rest assume m: "matchTask (?ls ! lineNumber ot) = Some (ind, box, rest)"
    from updateTaskCompletion_checkbox [OF m] obtain rest'
      where "matchTask ?new = Some (ind, (if box = 32 then 120 else box), rest')" by blast
    moreover have "asciiLower (if box = 32 then 120 else box) = 120"
      using matchTask_box [OF m] by (rule asciiLower_box)
    ultimately show "\<exists>box' rest'. matchTask ?new = Some (ind, box', rest') \<and> asciiLower box' = 120"
      by blast
  qed
  show ?thesis using step reread box by blast
qed

theorem remote_absent_marks_completed_witness:
  "map_of ([] :: (jsstring \<times> Task) list) (asc ''7'') = None
   \<and> files (worldWith line7) (filePath localTask7) = Some line7
   \<and> readError (worldWith line7) (filePath localTask7) = None
   \<and> modifyError (worldWith line7) (filePath localTask7) = None
   \<and> lineNumber localTask7 < length (splitOn 10 line7)
   \<and> (\<exists>body'. syncStep (stubApi (Inr []) (Inl [])) [] (emptyResult, engine7, worldWith line7)
              (asc ''7'', localTask7) =
            (emptyResult\<lparr>completed := completed emptyResult + 1\<rparr>,
             engine7\<lparr>syncState := (syncState engine7)\<lparr>tasks :=
                (tasks (syncState engine7))(asc ''7'' := None)\<rparr>\<rparr>,
             (worldWith line7)\<lparr>files := (files (worldWith line7))(filePath localTask7 \<mapsto> body')\<rparr>)
          \<and> splitOn 10 body' = (splitOn 10 line7)[lineNumber localTask7 :=
                 updateTaskCompletion (splitOn 10 line7 ! lineNumber localTask7) True]
          \<and> (\<forall>ind box rest. matchTask (splitOn 10 line7 ! lineNumber localTask7) = Some (ind, box, rest) \<longrightarrow>
                (\<exists>box' rest'. matchTask (updateTaskCompletion (splitOn 10 line7 ! lineNumber localTask7) True)
                     = Some (ind, box', rest') \<and> asciiLower box' = 120)))"
proof -
  have h1: "map_of ([] :: (jsstring \<times> Task) list) (asc ''7'') = None" by simp
  have h2: "files (worldWith line7) (filePath localTask7) = Some line7"
    by (simp add: worldWith_def localTask7_def)
  have h3: "readError (worldWith line7) (filePath localTask7) = None"
    by (simp add: worldWith_def world0_def)
  have h4: "modifyError (worldWith line7) (filePath localTask7) = None"
    by (simp add: worldWith_def world0_def)
  have h5: "lineNumber localTask7 < length (splitOn 10 line7)"
    by (simp add: localTask7_def)
  from remote_absent_marks_completed [OF h1 h2 h3 h4 h5]
  show ?thesis using h1 h2 h3 h4 h5 by blast
qed

text \<open>
  C10. Whatever \<open>syncExistingTask\<close> does for a linked task, it leaves the sync state as it
  was or writes exactly one record, that of the remote task's id, and the record it
  writes has \<open>obsidianCompleted\<close> equal to \<open>todoistCompleted\<close>.
\<close>

theorem reconciliation_record_flags_equal:
  "syncState (fst (snd (syncExistingTask G ot tt (e, w)))) = syncState e \<or>
   (\<exists>r. syncState (fst (snd (syncExistingTask G ot tt (e, w))))
            = (syncState e)\<lparr>tasks := (tasks (syncState e))(task_id tt \<mapsto> r)\<rparr>
        \<and> obsidianCompleted r = todoistCompleted r)"
proof -
  obtain res e' w' where run: "syncExistingTask G ot tt (e, w) = (res, e', w')"
    by (cases "syncExistingTask G ot tt (e, w)") auto
  have "syncState e' = syncState e \<or>
         (\<exists>r. syncState e' = (syncState e)\<lparr>tasks := (tasks (syncState e))(task_id tt \<mapsto> r)\<rparr>
              \<and> obsidianCompleted r = todoistCompleted r)"
    using run by (rule syncExistingTask_state)
  then show ?thesis by (simp add: run)
qed

text \<open>
  At a concrete input: the local task is completed, the remote one is not, so only the
  remote side is closed; the record written has both flags set.
\<close>

theorem reconciliation_record_flags_equal_witness:
  "(syncState (fst (snd (syncExistingTask (stubApi (Inr [task7]) (Inl []))
        (localTask7\<lparr>isCompleted := True\<rparr>) task7 (engine7, worldWith line7)))) = syncState engine7 \<or>
   (\<exists>r. syncState (fst (snd (syncExistingTask (stubApi (Inr [task7]) (Inl []))
        (localTask7\<lparr>isCompleted := True\<rparr>) task7 (engine7, worldWith line7))))
            = (syncState engine7)\<lparr>tasks := (tasks (syncState engine7))(task_id task7 \<mapsto> r)\<rparr>
        \<and> obsidianCompleted r = todoistCompleted r))
   \<and> map_option obsidianCompleted (tasks (syncState (fst (snd (syncExistingTask
        (stubApi (Inr [task7]) (Inl [])) (localTask7\<lparr>isCompleted := True\<rparr>) task7
        (engine7, worldWith line7))))) (asc ''7'')) = Some True
   \<and> map_option todoistCompleted (tasks (syncState (fst (snd (syncExistingTask
        (stubApi (Inr [task7]) (Inl [])) (localTask7\<lparr>isCompleted := True\<rparr>) task7
        (engine7, worldWith line7))))) (asc ''7'')) = Some True"
proof -
  have "map_option obsidianCompleted (tasks (syncState (fst (snd (syncExistingTask
        (stubApi (Inr [task7]) (Inl [])) (localTask7\<lparr>isCompleted := True\<rparr>) task7
        (engine7, worldWith line7))))) (asc ''7'')) = Some True
   \<and> map_option todoistCompleted (tasks (syncState (fst (snd (syncExistingTask
        (stubApi (Inr [task7]) (Inl [])) (localTask7\<lparr>isCompleted := True\<rparr>) task7
        (engine7, worldWith line7))))) (asc ''7'')) = Some True"
    by code_simp
  then show ?thesis
    by (rule conjI [OF reconciliation_record_flags_equal])
qed

section \<open>The creation phase\<close>

text \<open>
  C7, as the claim states it, fails: \<open>created\<close> is incremented after
  \<^verbatim>\<open>createTodoistTask\<close> has returned, and a failure of the line rewrite or of the close
  call is thrown out of it. Here the create call succeeds (the remote service has got
  two calls, the fetch and the create) and the vault refuses the write: \<open>created\<close> is 0.
\<close>

theorem create_counted_only_when_all_succeed:
  "getAllObsidianTasks U0 engine0 (readOnly (worldWith lineNew)) = Inr [localTaskNew]
   \<and> remote (snd (snd (performSync U0 (stubApi (Inr []) (Inr task5))
         (engine0, readOnly (worldWith lineNew))))) = 2
   \<and> created (fst (performSync U0 (stubApi (Inr []) (Inr task5))
         (engine0, readOnly (worldWith lineNew)))) = 0
   \<and> errors (fst (performSync U0 (stubApi (Inr []) (Inr task5))
         (engine0, readOnly (worldWith lineNew))))
        = [asc ''Failed to create task: a - Error: EROFS'']"
  by code_simp

text \<open>
  C7, amended. In the creation phase the step for one unlinked task increments
  \<open>created\<close> exactly when the create call, the rewrite of the source line and, for a task
  already completed locally, the close call have all succeeded. When any of the three
  fails, its error is appended to \<open>errors\<close> and \<open>created\<close> is not incremented, also when
  the remote task has been created.
\<close>

theorem createStep_counts:
  "fst (createStep G (r, e, w) t) =
     (case createTask G (content t) \<lparr>o_projectId = orUndefined (Some (defaultProjectId (settings e))),
              o_priority = Some (priority t), o_dueDate = dueDate t, o_labels = Some (labels t),
              o_description = Some (description t)\<rparr> w of
        (Inl err, w1) \<Rightarrow>
          r\<lparr>errors := errors r @ [asc ''Failed to create task: '' @ content t @ asc '' - '' @ err]\<rparr>
      | (Inr tt, w1) \<Rightarrow>
          (case updateObsidianTaskLine t (\<lambda>line. addTodoistIdToLine line (task_id tt)) w1 of
             (Inl err, w2) \<Rightarrow>
               r\<lparr>errors := errors r @ [asc ''Failed to create task: '' @ content t @ asc '' - '' @ err]\<rparr>
           | (Inr u, w2) \<Rightarrow>
               if isCompleted t then
                 (case completeTask G (task_id tt) (snd (dateNow w2)) of
                    (Inl err, w4) \<Rightarrow>
                      r\<lparr>errors := errors r @ [asc ''Failed to create task: '' @ content t @ asc '' - '' @ err]\<rparr>
                  | (Inr ok, w4) \<Rightarrow> r\<lparr>created := created r + 1\<rparr>)
               else r\<lparr>created := created r + 1\<rparr>))"
  by (auto simp add: createStep_def createTodoistTask_def Let_def split: prod.splits sum.splits)

text \<open>At a concrete input, where all steps succeed.\<close>

theorem createStep_counts_witness:
  "fst (createStep (stubApi (Inr []) (Inr task5)) (emptyResult, engine0, worldWith lineNew) localTaskNew)
     = emptyResult\<lparr>created := 1\<rparr>"
proof -
  have "(case createTask (stubApi (Inr []) (Inr task5)) (content localTaskNew)
            \<lparr>o_projectId = orUndefined (Some (defaultProjectId (settings engine0))),
              o_priority = Some (priority localTaskNew), o_dueDate = dueDate localTaskNew,
              o_labels = Some (labels localTaskNew),
              o_description = Some (description localTaskNew)\<rparr> (worldWith lineNew) of
        (Inl err, w1) \<Rightarrow>
          emptyResult\<lparr>errors := errors emptyResult @
            [asc ''Failed to create task: '' @ content localTaskNew @ asc '' - '' @ err]\<rparr>
      | (Inr tt, w1) \<Rightarrow>
          (case updateObsidianTaskLine localTaskNew (\<lambda>line. addTodoistIdToLine line (task_id tt)) w1 of
             (Inl err, w2) \<Rightarrow>
               emptyResult\<lparr>errors := errors emptyResult @
                 [asc ''Failed to create task: '' @ content localTaskNew @ asc '' - '' @ err]\<rparr>
           | (Inr u, w2) \<Rightarrow>
               if isCompleted localTaskNew then
                 (case completeTask (stubApi (Inr []) (Inr task5)) (task_id tt) (snd (dateNow w2)) of
                    (Inl err, w4) \<Rightarrow>
                      emptyResult\<lparr>errors := errors emptyResult @
                        [asc ''Failed to create task: '' @ content localTaskNew @ asc '' - '' @ err]\<rparr>
                  | (Inr ok, w4) \<Rightarrow> emptyResult\<lparr>created := created emptyResult + 1\<rparr>)
               else emptyResult\<lparr>created := created emptyResult + 1\<rparr>))
        = emptyResult\<lparr>created := 1\<rparr>"
    by code_simp
  then show ?thesis
    unfolding createStep_counts .
qed

section \<open>The round trip of the codec\<close>

text \<open>
  Claim C1 as it is stated fails on a label in upper case. The task \<open>workTask\<close> has a
  content free of metadata tokens, the label \<^verbatim>\<open>Work\<close> of the hashtag grammar, a valid due
  date and a numeric id; the line built from it is parsed with the same marker, and the
  labels read back are \<^verbatim>\<open>work\<close>: \<^verbatim>\<open>extractLabels\<close> puts every tag in lower case.
\<close>

theorem labels_are_lower_cased:
  "plainContent U0 marker0 (content workTask)
   \<and> list_all hashtagName (labels workTask)
   \<and> okDue (dueDate workTask) \<and> okId (todoistId workTask)
   \<and> labels workTask = [asc ''Work'']
   \<and> map_option labels (parseTaskLine U0 (buildTaskLine workTask marker0) 0 path1 marker0 1)
        = Some [asc ''work'']"
  by code_simp

text \<open>
  Claim C1, amended. For a marker that is a hashtag and a task whose content is free of
  metadata tokens and hashtags, whose labels are hashtag names in lower case other than
  the marker's name, whose due date, if any, is a YYYY-MM-DD date and whose id, if any,
  is a non-empty run of digits: the line of \<^verbatim>\<open>buildTaskLine\<close> is a task line for
  \<^verbatim>\<open>parseTaskLine\<close> with the same marker, and the parsed task has the same completion
  flag, priority, due date, labels and id; when the task has no labels it has the same
  content too.
\<close>

theorem buildTaskLine_round_trip:
  assumes vm: "validMarker marker" and wf: "wellFormed U marker t"
  shows "\<exists>p. parseTaskLine U (buildTaskLine t marker) n path marker mt = Some p
      \<and> isCompleted p = isCompleted t \<and> priority p = priority t \<and> dueDate p = dueDate t
      \<and> labels p = labels t \<and> todoistId p = todoistId t
      \<and> (labels t = [] \<longrightarrow> content p = content t)"
proof -
  let ?c = "content t"
  let ?T = "lead ?c @ marker @ labelPart (labels t) @ prioPart (priority t)
         @ duePart (dueDate t) @ idPart (todoistId t)"
  let ?box = "if isCompleted t then 120 else 32::nat"
  have pc: "plainContent U marker ?c" using wf by (simp add: wellFormed_def)
  have vl: "list_all (validLabel marker) (labels t)" using wf by (simp add: wellFormed_def)
  have od: "okDue (dueDate t)" using wf by (simp add: wellFormed_def okDue_def)
  have oi: "okId (todoistId t)" using wf by (simp add: wellFormed_def okId_def)
  have m: "matchTask (buildTaskLine t marker) = Some ([], ?box, ?T)"
    by (rule matchTask_built [OF vm wf])
  have mk: "rx_test (p_syncTag U marker) ?T" by (rule read_marker)
  have box: "(asciiLower ?box = 120) = isCompleted t" by (simp add: asciiLower_def)
  have tid: "rx_match1 p_todoistId ?T = todoistId t"
    using read_todoistId [OF pc vm vl od oi, of "priority t"]
    by (cases "todoistId t") (simp_all add: rx_match1_def)
  have due: "extractDueDate U ?T = dueDate t" by (rule read_dueDate [OF pc vm vl od oi])
  have pr: "extractPriority ?T = priority t" by (rule read_priority [OF pc vm vl od oi])
  have lb: "extractLabels U ?T marker = labels t" by (rule read_labels [OF pc vm vl od oi])
  have ct: "labels t = [] \<Longrightarrow> cleanTaskContent U ?T marker = ?c"
    using read_content [OF pc vm od oi, of "priority t"] by (simp add: labelPart_def)
  show ?thesis
    unfolding parseTaskLine_def m using mk box tid due pr lb ct by simp
qed

theorem buildTaskLine_round_trip_witness:
  "validMarker marker0 \<and> wellFormed U0 marker0 milkTask \<and> labels milkTask = []
   \<and> (\<exists>p. parseTaskLine U0 (buildTaskLine milkTask marker0) 0 path1 marker0 1 = Some p
      \<and> isCompleted p = isCompleted milkTask \<and> priority p = priority milkTask
      \<and> dueDate p = dueDate milkTask \<and> labels p = labels milkTask
      \<and> todoistId p = todoistId milkTask \<and> content p = content milkTask)"
proof -
  have vm: "validMarker marker0" by code_simp
  have wf: "wellFormed U0 marker0 milkTask" by code_simp
  have lb: "labels milkTask = []" by (simp add: milkTask_def)
  from buildTaskLine_round_trip [OF vm wf, of 0 path1 1] lb
  have "\<exists>p. parseTaskLine U0 (buildTaskLine milkTask marker0) 0 path1 marker0 1 = Some p
      \<and> isCompleted p = isCompleted milkTask \<and> priority p = priority milkTask
      \<and> dueDate p = dueDate milkTask \<and> labels p = labels milkTask
      \<and> todoistId p = todoistId milkTask \<and> content p = content milkTask"
    by simp
  with vm wf lb show ?thesis by (intro conjI)
qed

section \<open>Rewriting the checkbox\<close>

text \<open>
  Claim C8. \<^verbatim>\<open>updateTaskCompletion\<close> replaces the first bracket pair that its pattern
  matches anywhere in the line. On a line whose content holds \<^verbatim>\<open>[ ]\<close> a second call
  with \<^verbatim>\<open>true\<close> changes the line again, and what it changes is the content: the line
  \<^verbatim>\<open>- [x] a [ ] b\<close> is a completed task with the content \<^verbatim>\<open>a [ ] b\<close>, and marking it
  completed gives \<^verbatim>\<open>- [x] a [x] b\<close>. So the function is not idempotent and does not
  leave the rest of the line as it was.
\<close>

theorem updateTaskCompletion_rewrites_content:
  "updateTaskCompletion (asc ''- [ ] a [ ] b'') True = asc ''- [x] a [ ] b''
   \<and> updateTaskCompletion (updateTaskCompletion (asc ''- [ ] a [ ] b'') True) True
        = asc ''- [x] a [x] b''
   \<and> matchTask (asc ''- [x] a [ ] b'') = Some ([], 120, asc ''a [ ] b'')
   \<and> updateTaskCompletion (asc ''- [x] a [ ] b'') False = asc ''- [ ] a [ ] b''"
  by code_simp

end
